theory Spec2Isabelle
  imports Complex_Main "HOL-Library.AList"
begin

section \<open>ESG 10-K extraction: the model of scripts/esg_10k_extraction.py\<close>

text \<open>
  A Python \<open>str\<close> is a sequence of code points. One HOL \<open>char\<close> stands for one code
  point below 256, so \<open>length\<close> is Python's \<open>len\<close>; the character classes below are
  Python's on that range (\<open>str.isspace\<close>, and the Unicode \<open>\<bslash>w\<close> and case folding
  of the \<open>re\<close> module).
\<close>

subsection \<open>Character classes of \<open>str\<close> and \<open>re\<close>\<close>

definition is_space :: "char \<Rightarrow> bool" where
  "is_space c =
     (let n = (of_char c :: int)
      in (9 \<le> n \<and> n \<le> 13) \<or> (28 \<le> n \<and> n \<le> 32) \<or> n = 133 \<or> n = 160)"

definition is_word :: "char \<Rightarrow> bool" where
  "is_word c =
     (let n = (of_char c :: int)
      in (48 \<le> n \<and> n \<le> 57) \<or> (65 \<le> n \<and> n \<le> 90) \<or> n = 95 \<or> (97 \<le> n \<and> n \<le> 122)
         \<or> n = 170 \<or> n = 178 \<or> n = 179 \<or> n = 181 \<or> n = 185 \<or> n = 186
         \<or> (188 \<le> n \<and> n \<le> 190) \<or> (192 \<le> n \<and> n \<le> 214) \<or> (216 \<le> n \<and> n \<le> 246)
         \<or> 248 \<le> n)"

definition is_upper :: "char \<Rightarrow> bool" where
  "is_upper c =
     (let n = (of_char c :: int)
      in (65 \<le> n \<and> n \<le> 90) \<or> (192 \<le> n \<and> n \<le> 214) \<or> (216 \<le> n \<and> n \<le> 222))"

definition to_lower :: "char \<Rightarrow> char" where
  "to_lower c = (if is_upper c then char_of ((of_char c :: int) + 32) else c)"

text \<open>\<open>re.IGNORECASE\<close>: a literal of the pattern matches a character of the text when
  both have the same lower case.\<close>

definition ci_eq :: "char \<Rightarrow> char \<Rightarrow> bool" where
  "ci_eq k c = (to_lower c = to_lower k)"

text \<open>\<open>str.strip()\<close> with no argument: whitespace is removed at both ends.\<close>

definition strip :: "string \<Rightarrow> string" where
  "strip s = rev (dropWhile is_space (rev (dropWhile is_space s)))"

text \<open>\<open>re.sub(r'\<bslash>s+', ' ', text)\<close>: every maximal run of whitespace becomes one space.\<close>

function collapse_ws :: "string \<Rightarrow> string" where
  "collapse_ws [] = []"
| "collapse_ws (c # cs) =
     (if is_space c then CHR '' '' # collapse_ws (dropWhile is_space cs)
      else c # collapse_ws cs)"
  by pat_completeness auto
termination
  by (relation "measure length") (auto simp: length_dropWhile_le less_Suc_eq_le)

subsection \<open>The backtracking matcher of \<open>re\<close>, for the pattern of the extractor\<close>

text \<open>
  The pattern \<open>r'[^.]*\<bslash>b' + re.escape(keyword) + r'\<bslash>b[^.]*\<bslash>.'\<close> is a sequence of four
  kinds of items: the greedy star of a non-period, a word boundary, a literal character
  (compared without case, \<open>re.escape\<close> making every character of the keyword a
  literal) and the period.
\<close>

datatype re_item = NotDotStar | WordB | Lit char | Dot

definition sentence_pattern :: "string \<Rightarrow> re_item list" where
  "sentence_pattern keyword = [NotDotStar, WordB] @ map Lit keyword @ [WordB, NotDotStar, Dot]"

text \<open>\<open>\<bslash>b\<close>: the characters before and after the position differ in being word
  characters; outside the text counts as no word character.\<close>

definition at_boundary :: "char option \<Rightarrow> string \<Rightarrow> bool" where
  "at_boundary prev t =
     ((case prev of None \<Rightarrow> False | Some p \<Rightarrow> is_word p)
      \<noteq> (case t of [] \<Rightarrow> False | c # _ \<Rightarrow> is_word c))"

text \<open>
  \<open>match_seq items prev t\<close> matches the items at the head of \<open>t\<close>, where \<open>prev\<close> is the
  character before \<open>t\<close> in the whole text. It returns the matched text and the rest.
  The star is greedy: it first takes one more character, and gives it back only when
  the rest of the pattern fails after it.
\<close>

fun match_seq :: "re_item list \<Rightarrow> char option \<Rightarrow> string \<Rightarrow> (string \<times> string) option" where
  "match_seq [] prev t = Some ([], t)"
| "match_seq (Dot # r) prev [] = None"
| "match_seq (Dot # r) prev (c # cs) =
     (if c = CHR ''.''
      then (case match_seq r (Some c) cs of None \<Rightarrow> None | Some (m, rest) \<Rightarrow> Some (c # m, rest))
      else None)"
| "match_seq (Lit k # r) prev [] = None"
| "match_seq (Lit k # r) prev (c # cs) =
     (if ci_eq k c
      then (case match_seq r (Some c) cs of None \<Rightarrow> None | Some (m, rest) \<Rightarrow> Some (c # m, rest))
      else None)"
| "match_seq (WordB # r) prev t = (if at_boundary prev t then match_seq r prev t else None)"
| "match_seq (NotDotStar # r) prev [] = match_seq r prev []"
| "match_seq (NotDotStar # r) prev (c # cs) =
     (if c \<noteq> CHR ''.''
      then (case match_seq (NotDotStar # r) (Some c) cs of
              Some (m, rest) \<Rightarrow> Some (c # m, rest)
            | None \<Rightarrow> match_seq r prev (c # cs))
      else match_seq r prev (c # cs))"

text \<open>\<open>re.search\<close>: the match at the leftmost position that has one.\<close>

fun search :: "re_item list \<Rightarrow> char option \<Rightarrow> string \<Rightarrow> (string \<times> string) option" where
  "search pat prev [] = match_seq pat prev []"
| "search pat prev (c # cs) =
     (case match_seq pat prev (c # cs) of
        Some res \<Rightarrow> Some res
      | None \<Rightarrow> search pat (Some c) cs)"

text \<open>
  \<open>re.findall\<close>: the matches from left to right, each search starting where the last
  match ended. A match of the extractor's pattern ends in a period, so it is never
  empty and the rest is shorter each time (lemma \<open>search_sentence_shorter\<close>); the
  scan stops at a match that takes nothing.
\<close>

function findall :: "re_item list \<Rightarrow> char option \<Rightarrow> string \<Rightarrow> string list" where
  "findall pat prev t =
     (case search pat prev t of
        None \<Rightarrow> []
      | Some (m, rest) \<Rightarrow>
          if length rest < length t then m # findall pat (Some (last m)) rest else [m])"
  by pat_completeness auto
termination
  by (relation "measure (\<lambda>(pat, prev, t). length t)") auto

subsection \<open>The keyword catalog\<close>

definition ESG_KEYWORDS :: "(string \<times> string list) list" where
  "ESG_KEYWORDS =
    [(''Environmental'',
       [''climate change'', ''carbon emissions'', ''greenhouse gas'', ''renewable energy'',
        ''environmental impact'', ''sustainability'', ''carbon footprint'', ''net zero'',
        ''clean energy'', ''environmental matters'', ''climate risk'', ''emissions reduction'']),
     (''Social'',
       [''human capital'', ''employee'', ''workforce'', ''diversity'', ''inclusion'',
        ''health and safety'', ''labor practices'', ''community'', ''human rights'',
        ''employee benefits'', ''talent'', ''workplace'']),
     (''Governance'',
       [''board of directors'', ''corporate governance'', ''ethics'', ''compliance'',
        ''risk management'', ''audit committee'', ''executive compensation'',
        ''shareholder rights'', ''anti-corruption'', ''code of conduct''])]"

subsection \<open>The span extractor\<close>

datatype error =
  KeyError | IndexError | TypeError | AttributeError | JSONDecodeError | RequestException

text \<open>A \<open>dict\<close> keeps its keys in insertion order: an association list with distinct
  keys. \<open>results\<close> maps a category to its list of spans.\<close>

type_synonym results = "(string \<times> string list) list"

definition length_ok :: "string \<Rightarrow> bool" where
  "length_ok cleaned = (length cleaned > 50 \<and> length cleaned < 500)"

text \<open>The body of the innermost loop, lines 120 to 123, for one match.
  \<open>results[category]\<close> raises \<open>KeyError\<close> for a category that \<open>results\<close> does not hold.\<close>

definition add_match :: "string \<Rightarrow> results \<Rightarrow> string \<Rightarrow> error + results" where
  "add_match category res m =
     (let cleaned = strip m
      in if length_ok cleaned
         then (case map_of res category of
                 None \<Rightarrow> Inl KeyError
               | Some spans \<Rightarrow>
                   if cleaned \<notin> set spans
                   then Inr (AList.update category (spans @ [cleaned]) res)
                   else Inr res)
         else Inr res)"

fun add_matches :: "string \<Rightarrow> results \<Rightarrow> string list \<Rightarrow> error + results" where
  "add_matches category res [] = Inr res"
| "add_matches category res (m # ms) =
     (case add_match category res m of
        Inl e \<Rightarrow> Inl e
      | Inr res' \<Rightarrow> add_matches category res' ms)"

text \<open>Lines 116 to 123 for one keyword: \<open>matches[:3]\<close> is \<open>take 3\<close>.\<close>

definition keyword_matches :: "string \<Rightarrow> string \<Rightarrow> string list" where
  "keyword_matches text keyword = take 3 (findall (sentence_pattern keyword) None text)"

definition add_keyword :: "string \<Rightarrow> string \<Rightarrow> results \<Rightarrow> string \<Rightarrow> error + results" where
  "add_keyword text category res keyword =
     add_matches category res (keyword_matches text keyword)"

fun add_keywords :: "string \<Rightarrow> string \<Rightarrow> results \<Rightarrow> string list \<Rightarrow> error + results" where
  "add_keywords text category res [] = Inr res"
| "add_keywords text category res (k # ks) =
     (case add_keyword text category res k of
        Inl e \<Rightarrow> Inl e
      | Inr res' \<Rightarrow> add_keywords text category res' ks)"

fun add_categories :: "string \<Rightarrow> results \<Rightarrow> (string \<times> string list) list \<Rightarrow> error + results" where
  "add_categories text res [] = Inr res"
| "add_categories text res ((category, keywords) # cs) =
     (case add_keywords text category res keywords of
        Inl e \<Rightarrow> Inl e
      | Inr res' \<Rightarrow> add_categories text res' cs)"

definition empty_results :: results where
  "empty_results = [(''Environmental'', []), (''Social'', []), (''Governance'', [])]"

text \<open>
  \<open>extract_esg_sections\<close>. The function reads the module constant \<open>ESG_KEYWORDS\<close>:
  it is the argument \<open>keywords\<close> here, and \<open>ESG_KEYWORDS\<close> above is the value it has.
  The HTML parser is a library; \<open>get_text\<close> stands for
  \<open>BeautifulSoup(html_content, 'html.parser').get_text(separator=' ', strip=True)\<close>.
\<close>

definition extract_esg_sections ::
    "(string \<times> string list) list \<Rightarrow> (string \<Rightarrow> string) \<Rightarrow> string \<Rightarrow> string
      \<Rightarrow> error + results" where
  "extract_esg_sections keywords get_text html_content company_name =
     (let text = get_text html_content;
          text = collapse_ws text
      in add_categories text empty_results keywords)"

subsection \<open>The metrics aggregator\<close>

text \<open>
  Line 136 divides two \<open>int\<close>s with \<open>/\<close>: true division, whose result is a \<open>float\<close>,
  the IEEE double nearest to the exact quotient, ties going to the even mantissa. A double
  is a rational number, and \<open>py_truediv a b\<close> is the value of the double that \<open>a / b\<close>
  returns for \<open>a \<ge> 0\<close> and \<open>b > 0\<close>: with \<open>e\<close> the exponent of the quotient
  (\<open>2 ^ e \<le> a / b < 2 ^ (e + 1)\<close>), the quotient is scaled to a mantissa of 53 bits,
  rounded to an integer and scaled back. The exponent range of a double is not modelled:
  the quotient of a total length by a count lies far inside it. The divisor is never 0:
  the only call is guarded by \<open>if items\<close>.
\<close>

function bit_length :: "nat \<Rightarrow> nat" where
  "bit_length n = (if n = 0 then 0 else Suc (bit_length (n div 2)))"
  by pat_completeness auto
termination
  by (relation "measure (\<lambda>n. n)") auto

definition round_half_even :: "rat \<Rightarrow> int" where
  "round_half_even x =
     (let f = \<lfloor>x\<rfloor>; r = x - of_int f
      in if r < 1 / 2 then f else if r > 1 / 2 then f + 1 else if even f then f else f + 1)"

definition double_exponent :: "nat \<Rightarrow> nat \<Rightarrow> int" where
  "double_exponent a b =
     (let k = int (bit_length a) - int (bit_length b)
      in if power_int 2 k \<le> (of_nat a / of_nat b :: rat) then k else k - 1)"

definition py_truediv :: "nat \<Rightarrow> nat \<Rightarrow> rat" where
  "py_truediv a b =
     (if a = 0 then 0
      else (let e = double_exponent a b
            in of_int (round_half_even (of_nat a / of_nat b * power_int 2 (52 - e)))
                 * power_int 2 (e - 52)))"

text \<open>The metrics of one category, lines 134 to 138. \<open>avg_length\<close> holds the value of the
  \<open>float\<close>, or the \<open>int\<close> 0 of the empty list.\<close>

record category_metrics =
  disclosure_count :: nat
  avg_length :: rat
  sample :: string

definition span_metrics :: "string list \<Rightarrow> category_metrics" where
  "span_metrics items =
     \<lparr> disclosure_count = length items,
       avg_length = (if items \<noteq> [] then py_truediv (sum_list (map length items)) (length items)
                     else 0),
       sample = (case items of
                   first # _ \<Rightarrow> take 200 first @ ''...''
                 | [] \<Rightarrow> ''No disclosure found'') \<rparr>"

definition analyze_esg_disclosure :: "results \<Rightarrow> (string \<times> category_metrics) list" where
  "analyze_esg_disclosure esg_data =
     map (\<lambda>category.
            (category,
             span_metrics (case map_of esg_data category of None \<Rightarrow> [] | Some items \<Rightarrow> items)))
         [''Environmental'', ''Social'', ''Governance'']"

subsection \<open>The filing fetcher\<close>

text \<open>A decoded JSON value. The payload of a number is never looked at.\<close>

datatype json =
  JNull | JBool bool | JNum int | JStr string | JArr "json list" | JObj "(string \<times> json) list"

text \<open>What \<open>requests.get\<close> returns: \<open>response.status_code\<close>, the value of
  \<open>response.json()\<close> (\<open>None\<close> when the body is no JSON and the call raises) and
  \<open>response.text\<close>.\<close>

record response =
  status_code :: int
  json_body :: "json option"
  text_body :: string

text \<open>The network: \<open>requests_get url\<close> is the outcome of
  \<open>requests.get(url, headers=HEADERS)\<close>, \<open>Inl\<close> when the call raises (a timeout, a
  connection failure).\<close>

type_synonym http = "string \<Rightarrow> error + response"

text \<open>\<open>x.get(key, default)\<close>, with \<open>dflt\<close> for the default: only a dict has the method.\<close>

fun dict_get :: "json \<Rightarrow> string \<Rightarrow> json \<Rightarrow> error + json" where
  "dict_get (JObj kvs) key dflt =
     Inr (case map_of kvs key of None \<Rightarrow> dflt | Some v \<Rightarrow> v)"
| "dict_get _ key dflt = Inl AttributeError"

text \<open>The items a \<open>for\<close> loop draws from a value: the elements of a list, the
  characters of a string, the keys of a dict; other values are not iterable.\<close>

fun py_iter :: "json \<Rightarrow> error + json list" where
  "py_iter (JArr xs) = Inr xs"
| "py_iter (JStr s) = Inr (map (\<lambda>c. JStr [c]) s)"
| "py_iter (JObj kvs) = Inr (map (\<lambda>kv. JStr (fst kv)) kvs)"
| "py_iter _ = Inl TypeError"

text \<open>\<open>x[i]\<close> for an index \<open>i \<ge> 0\<close>. The keys of a decoded JSON object are strings,
  so an integer is never one of them.\<close>

fun py_index :: "json \<Rightarrow> nat \<Rightarrow> error + json" where
  "py_index (JArr xs) i = (if i < length xs then Inr (xs ! i) else Inl IndexError)"
| "py_index (JStr s) i = (if i < length s then Inr (JStr [s ! i]) else Inl IndexError)"
| "py_index (JObj kvs) i = Inl KeyError"
| "py_index _ i = Inl TypeError"

text \<open>\<open>x.replace('-', '')\<close>: only a string has the method.\<close>

fun py_replace_dash :: "json \<Rightarrow> error + string" where
  "py_replace_dash (JStr s) = Inr (filter (\<lambda>c. c \<noteq> CHR ''-'') s)"
| "py_replace_dash _ = Inl AttributeError"

record filing =
  filing_form :: string
  filing_accession :: string
  filing_date :: json
  filing_document :: json
  filing_cik :: string

definition submissions_url :: "string \<Rightarrow> string" where
  "submissions_url cik = ''https://data.sec.gov/submissions/CIK'' @ cik @ ''.json''"

text \<open>The loop of lines 71 to 79 from index \<open>i\<close> on. The dict display evaluates
  \<open>accessions[i].replace('-', '')\<close>, \<open>dates[i]\<close> and \<open>docs[i]\<close> in this order.\<close>

fun collect_filings ::
    "string \<Rightarrow> string \<Rightarrow> int \<Rightarrow> json \<Rightarrow> json \<Rightarrow> json \<Rightarrow> nat \<Rightarrow> json list \<Rightarrow> filing list
      \<Rightarrow> error + filing list" where
  "collect_filings cik filing_type count accessions dates docs i [] results = Inr results"
| "collect_filings cik filing_type count accessions dates docs i (form # forms) results =
     (if form = JStr filing_type \<and> int (length results) < count
      then (case py_index accessions i of
              Inl e \<Rightarrow> Inl e
            | Inr a \<Rightarrow>
          (case py_replace_dash a of
              Inl e \<Rightarrow> Inl e
            | Inr accession \<Rightarrow>
          (case py_index dates i of
              Inl e \<Rightarrow> Inl e
            | Inr date \<Rightarrow>
          (case py_index docs i of
              Inl e \<Rightarrow> Inl e
            | Inr document \<Rightarrow>
                collect_filings cik filing_type count accessions dates docs (Suc i) forms
                  (results @ [\<lparr> filing_form = filing_type, filing_accession = accession,
                                filing_date = date, filing_document = document,
                                filing_cik = cik \<rparr>])))))
      else collect_filings cik filing_type count accessions dates docs (Suc i) forms results)"

definition get_company_filings :: "http \<Rightarrow> string \<Rightarrow> string \<Rightarrow> int \<Rightarrow> error + filing list" where
  "get_company_filings requests_get cik filing_type count =
     (case requests_get (submissions_url cik) of
        Inl e \<Rightarrow> Inl e
      | Inr response \<Rightarrow>
          if status_code response \<noteq> 200 then Inr []
          else
          (case json_body response of
             None \<Rightarrow> Inl JSONDecodeError
           | Some data \<Rightarrow>
          (case dict_get data ''filings'' (JObj []) of
             Inl e \<Rightarrow> Inl e
           | Inr fj \<Rightarrow>
          (case dict_get fj ''recent'' (JObj []) of
             Inl e \<Rightarrow> Inl e
           | Inr filings \<Rightarrow>
          (case dict_get filings ''form'' (JArr []) of
             Inl e \<Rightarrow> Inl e
           | Inr forms \<Rightarrow>
          (case dict_get filings ''accessionNumber'' (JArr []) of
             Inl e \<Rightarrow> Inl e
           | Inr accessions \<Rightarrow>
          (case dict_get filings ''filingDate'' (JArr []) of
             Inl e \<Rightarrow> Inl e
           | Inr dates \<Rightarrow>
          (case dict_get filings ''primaryDocument'' (JArr []) of
             Inl e \<Rightarrow> Inl e
           | Inr docs \<Rightarrow>
          (case py_iter forms of
             Inl e \<Rightarrow> Inl e
           | Inr items \<Rightarrow>
               collect_filings cik filing_type count accessions dates docs 0 items [])))))))))"

text \<open>\<open>get_filing_content\<close>. \<open>str_of\<close> stands for Python's \<open>str\<close> on a decoded JSON
  value, which the f-string applies to \<open>document\<close>; \<open>cik.lstrip('0')\<close> drops the
  leading zeros.\<close>

definition document_url :: "(json \<Rightarrow> string) \<Rightarrow> string \<Rightarrow> string \<Rightarrow> json \<Rightarrow> string" where
  "document_url str_of cik accession document =
     ''https://www.sec.gov/Archives/edgar/data/'' @ dropWhile (\<lambda>c. c = CHR ''0'') cik
       @ ''/'' @ accession @ ''/'' @ str_of document"

definition get_filing_content ::
    "http \<Rightarrow> (json \<Rightarrow> string) \<Rightarrow> string \<Rightarrow> string \<Rightarrow> json \<Rightarrow> error + string option" where
  "get_filing_content requests_get str_of cik accession document =
     (case requests_get (document_url str_of cik accession document) of
        Inl e \<Rightarrow> Inl e
      | Inr response \<Rightarrow>
          if status_code response \<noteq> 200 then Inr None else Inr (Some (text_body response)))"

subsection \<open>The report driver\<close>

definition COMPANIES :: "(string \<times> string) list" where
  "COMPANIES =
     [(''Apple'', ''0000320193''), (''Alphabet (Google)'', ''0001652044''),
      (''Tesla'', ''0001318605'')]"

record company_result =
  result_filing_date :: json
  result_esg_data :: results
  result_metrics :: "(string \<times> category_metrics) list"

text \<open>
  The loop of \<open>main\<close> over the companies, lines 154 to 203, with \<open>all_results\<close> as its
  state. Nothing in \<open>main\<close> catches an exception: an \<open>Inl\<close> of a call is the result of
  the loop. \<open>continue\<close> goes on with the next company. The prints and the sleeps are
  left out.
\<close>

fun process_companies ::
    "http \<Rightarrow> (string \<Rightarrow> string) \<Rightarrow> (json \<Rightarrow> string) \<Rightarrow> (string \<times> string) list
      \<Rightarrow> (string \<times> company_result) list \<Rightarrow> error + (string \<times> company_result) list" where
  "process_companies requests_get get_text str_of [] all_results = Inr all_results"
| "process_companies requests_get get_text str_of ((company, cik) # companies) all_results =
     (case get_company_filings requests_get cik ''10-K'' 1 of
        Inl e \<Rightarrow> Inl e
      | Inr [] \<Rightarrow> process_companies requests_get get_text str_of companies all_results
      | Inr (filing # _) \<Rightarrow>
          (case get_filing_content requests_get str_of cik
                  (filing_accession filing) (filing_document filing) of
             Inl e \<Rightarrow> Inl e
           | Inr None \<Rightarrow> process_companies requests_get get_text str_of companies all_results
           | Inr (Some content) \<Rightarrow>
               if content = []
               then process_companies requests_get get_text str_of companies all_results
               else
               (case extract_esg_sections ESG_KEYWORDS get_text content company of
                  Inl e \<Rightarrow> Inl e
                | Inr esg_data \<Rightarrow>
                    process_companies requests_get get_text str_of companies
                      (AList.update company
                         \<lparr> result_filing_date = filing_date filing,
                           result_esg_data = esg_data,
                           result_metrics = analyze_esg_disclosure esg_data \<rparr>
                         all_results))))"

text \<open>\<open>main\<close>: the loop from the empty \<open>all_results\<close>. After the loop \<open>main\<close> prints the
  summary table, writes \<open>all_results\<close> to \<open>esg_extraction_results.json\<close> and returns
  it: \<open>Inr all_results\<close> is the run that writes the artifact, \<open>Inl e\<close> the run that an
  exception ends before.\<close>

definition main :: "http \<Rightarrow> (string \<Rightarrow> string) \<Rightarrow> (json \<Rightarrow> string)
    \<Rightarrow> error + (string \<times> company_result) list" where
  "main requests_get get_text str_of = process_companies requests_get get_text str_of COMPANIES []"

section \<open>Notions used in the statements\<close>

subsection \<open>Whole-word matches, the shape of a match, first appearance\<close>

text \<open>The character before the position that follows \<open>m\<close>, when \<open>prev\<close> is the one
  before \<open>m\<close>.\<close>

definition prev_after :: "char option \<Rightarrow> string \<Rightarrow> char option" where
  "prev_after prev m = (if m = [] then prev else Some (last m))"

text \<open>
  A string contains a keyword as a case-insensitive whole-word match when at some position
  the characters of the keyword follow, compared without case, with a word boundary
  before the first and after the last of them: what
  \<open>re.search(r'\<bslash>b' + re.escape(kw) + r'\<bslash>b', s, re.IGNORECASE)\<close> finds.
\<close>

fun ci_prefix :: "string \<Rightarrow> char option \<Rightarrow> string \<Rightarrow> (char option \<times> string) option" where
  "ci_prefix [] prev t = Some (prev, t)"
| "ci_prefix (k # ks) prev [] = None"
| "ci_prefix (k # ks) prev (c # cs) = (if ci_eq k c then ci_prefix ks (Some c) cs else None)"

definition word_at :: "string \<Rightarrow> char option \<Rightarrow> string \<Rightarrow> bool" where
  "word_at kw prev t =
     (at_boundary prev t \<and>
      (case ci_prefix kw prev t of None \<Rightarrow> False | Some (p, rest) \<Rightarrow> at_boundary p rest))"

fun contains_word :: "string \<Rightarrow> char option \<Rightarrow> string \<Rightarrow> bool" where
  "contains_word kw prev [] = word_at kw prev []"
| "contains_word kw prev (c # cs) = (word_at kw prev (c # cs) \<or> contains_word kw (Some c) cs)"

definition contains_word_ci :: "string \<Rightarrow> string \<Rightarrow> bool" where
  "contains_word_ci kw s = contains_word kw None s"

text \<open>The shape of every match of the pattern: non-periods, the keyword between two word
  boundaries, non-periods, one period.\<close>

definition sentence_match :: "string \<Rightarrow> char option \<Rightarrow> string \<Rightarrow> string \<Rightarrow> bool" where
  "sentence_match kw prev m rest =
     (\<exists>a k' b. m = a @ k' @ b @ ''.'' \<and> CHR ''.'' \<notin> set a \<and> CHR ''.'' \<notin> set b \<and>
        list_all2 ci_eq kw k' \<and>
        at_boundary (prev_after prev a) (k' @ b @ ''.'') \<and>
        at_boundary (prev_after prev (a @ k')) (b @ ''.''))"

text \<open>The character before a match is a period, or the match starts the text.\<close>

definition sentence_start :: "char option \<Rightarrow> bool" where
  "sentence_start p = (p = None \<or> p = Some (CHR ''.''))"

text \<open>Whether the character before a position is a word character.\<close>

definition wordness :: "char option \<Rightarrow> bool" where
  "wordness p = (case p of None \<Rightarrow> False | Some c \<Rightarrow> is_word c)"

text \<open>\<open>dedup_into acc xs\<close> appends to \<open>acc\<close> the strings of \<open>xs\<close> it does not hold
  yet, in the order of their first appearance.\<close>

fun dedup_into :: "string list \<Rightarrow> string list \<Rightarrow> string list" where
  "dedup_into acc [] = acc"
| "dedup_into acc (x # xs) = dedup_into (if x \<in> set acc then acc else acc @ [x]) xs"

text \<open>The trimmed matches of a keyword, and of the keywords of a category, that pass the
  length filter, in the order the loops visit them.\<close>

definition keyword_candidates :: "string \<Rightarrow> string \<Rightarrow> string list" where
  "keyword_candidates text keyword = filter length_ok (map strip (keyword_matches text keyword))"

definition category_candidates :: "string \<Rightarrow> string list \<Rightarrow> string list" where
  "category_candidates text keywords = concat (map (keyword_candidates text) keywords)"

text \<open>The result of a match on a text, seen from the text with \<open>suf\<close> appended.\<close>

definition keep_tail :: "string \<Rightarrow> (string \<times> string) option \<Rightarrow> (string \<times> string) option" where
  "keep_tail suf res = map_option (\<lambda>(m, rest). (m, rest @ suf)) res"

subsection \<open>Concrete inputs\<close>

text \<open>A sentence of 59 characters that holds the keyword \<open>ethics\<close>.\<close>

definition demo_text :: string where
  "demo_text = ''We keep a very strict policy on all the matters of ethics.''"

text \<open>Two keywords of one category with the same sentence, and a second category with
  a keyword of the first.\<close>

definition demo_catalog :: "(string \<times> string list) list" where
  "demo_catalog = [(''Social'', [''policy'', ''ethics'']), (''Governance'', [''ethics''])]"



text \<open>Data with an empty category, a category whose mean length 10 / 3 is no double and a
  category whose mean length is 3.\<close>

definition demo_esg_data :: results where
  "demo_esg_data =
     [(''Environmental'', []), (''Social'', [''abcd'', ''abc'', ''abc'']),
      (''Governance'', [''abcd'', ''ab''])]"

text \<open>A well-formed answer with one annual report, and an answer whose form sequence has
  an entry but which has no accession numbers.\<close>

definition demo_metadata :: json where
  "demo_metadata =
     JObj [(''filings'', JObj [(''recent'', JObj
       [(''form'', JArr [JStr ''8-K'', JStr ''10-K'']),
        (''accessionNumber'', JArr [JStr ''0000320193-23-000110'', JStr ''0000320193-23-000106'']),
        (''filingDate'', JArr [JStr ''2023-11-30'', JStr ''2023-11-03'']),
        (''primaryDocument'', JArr [JStr ''a8k.htm'', JStr ''aapl-20230930.htm''])])])]"

definition short_metadata :: json where
  "short_metadata = JObj [(''filings'', JObj [(''recent'', JObj [(''form'', JArr [JStr ''10-K''])])])]"

definition answer_with :: "json \<Rightarrow> http" where
  "answer_with data url = Inr \<lparr> status_code = 200, json_body = Some data, text_body = [] \<rparr>"

text \<open>A network where the first request for Apple raises and every other request is
  answered by status 404, and a network where every request is answered by status 404.\<close>

definition not_found :: response where
  "not_found = \<lparr> status_code = 404, json_body = None, text_body = [] \<rparr>"

definition apple_times_out :: http where
  "apple_times_out url =
     (if url = submissions_url ''0000320193'' then Inl RequestException else Inr not_found)"

definition all_not_found :: http where
  "all_not_found url = Inr not_found"

section \<open>Properties of the matcher\<close>

declare findall.simps [simp del]

lemma space_not_word: "is_space c \<Longrightarrow> \<not> is_word c"
  by (auto simp: is_space_def is_word_def Let_def)

lemma period_not_space: "\<not> is_space (CHR ''.'')"
  by (simp add: is_space_def)

lemma period_not_word: "\<not> is_word (CHR ''.'')"
  by (simp add: is_word_def)

lemma prev_after_simps [simp]:
  "prev_after p [] = p" "prev_after p (xs @ [x]) = Some x"
  "prev_after p (x # xs) = prev_after (Some x) xs"
  "prev_after (prev_after p xs) ys = prev_after p (xs @ ys)"
  by (auto simp: prev_after_def)

lemma match_seq_split: "match_seq pat prev t = Some (m, rest) \<Longrightarrow> t = m @ rest"
  by (induction pat prev t arbitrary: m rest rule: match_seq.induct)
     (auto split: if_splits option.splits)

lemma match_lits:
  "match_seq (map Lit k @ r) prev t = Some (m, rest) \<Longrightarrow>
   \<exists>k' m2. m = k' @ m2 \<and> list_all2 ci_eq k k' \<and>
     match_seq r (prev_after prev k') (m2 @ rest) = Some (m2, rest)"
proof (induction k arbitrary: prev t m)
  case Nil
  then have "match_seq r prev t = Some (m, rest)" by simp
  moreover from this have "t = m @ rest" by (rule match_seq_split)
  ultimately show ?case by - (rule exI[of _ "[]"], rule exI[of _ m], simp)
next
  case (Cons a k)
  then obtain c cs where t: "t = c # cs" by (cases t) auto
  with Cons.prems obtain m1 where ci: "ci_eq a c"
    and m: "m = c # m1" and rec: "match_seq (map Lit k @ r) (Some c) cs = Some (m1, rest)"
    by (auto split: if_splits option.splits)
  from Cons.IH[OF rec] obtain k' m2 where "m1 = k' @ m2" "list_all2 ci_eq k k'"
    "match_seq r (prev_after (Some c) k') (m2 @ rest) = Some (m2, rest)" by blast
  then show ?case using ci m
    by - (rule exI[of _ "c # k'"], rule exI[of _ m2], simp)
qed

lemma match_star:
  "match_seq (NotDotStar # r) prev t = Some (m, rest) \<Longrightarrow>
   \<exists>a m2. m = a @ m2 \<and> CHR ''.'' \<notin> set a \<and>
     match_seq r (prev_after prev a) (m2 @ rest) = Some (m2, rest)"
proof (induction t arbitrary: prev m)
  case Nil
  then have "match_seq r prev [] = Some (m, rest)" by simp
  moreover from this have "[] = m @ rest" by (rule match_seq_split)
  ultimately show ?case by - (rule exI[of _ "[]"], rule exI[of _ m], simp)
next
  case (Cons c cs)
  show ?case
  proof (cases "c \<noteq> CHR ''.'' \<and> match_seq (NotDotStar # r) (Some c) cs \<noteq> None")
    case True
    with Cons.prems obtain m1 where m: "m = c # m1"
      and rec: "match_seq (NotDotStar # r) (Some c) cs = Some (m1, rest)"
      by (auto split: option.splits)
    from Cons.IH[OF rec] obtain a m2 where "m1 = a @ m2" "CHR ''.'' \<notin> set a"
      "match_seq r (prev_after (Some c) a) (m2 @ rest) = Some (m2, rest)" by blast
    then show ?thesis using True m
      by - (rule exI[of _ "c # a"], rule exI[of _ m2], auto)
  next
    case False
    with Cons.prems have r: "match_seq r prev (c # cs) = Some (m, rest)"
      by (auto split: if_splits option.splits)
    then have "c # cs = m @ rest" by (rule match_seq_split)
    with r show ?thesis by - (rule exI[of _ "[]"], rule exI[of _ m], simp)
  qed
qed

lemma match_dot:
  "match_seq [Dot] prev t = Some (m, rest) \<Longrightarrow> m = ''.''"
  by (cases t) (auto split: if_splits)

lemma match_wordb:
  "match_seq (WordB # r) prev t = Some (m, rest) \<Longrightarrow>
     at_boundary prev t \<and> match_seq r prev t = Some (m, rest)"
  by (auto split: if_splits)

lemma at_boundary_append: "y \<noteq> [] \<Longrightarrow> at_boundary p (y @ z) = at_boundary p y"
  by (cases y) (auto simp: at_boundary_def)

lemma match_sentence:
  assumes "match_seq (sentence_pattern kw) prev t = Some (m, rest)"
  shows "sentence_match kw prev m rest"
proof -
  from assms obtain a m2 where 1: "m = a @ m2" "CHR ''.'' \<notin> set a"
    and 2: "match_seq (WordB # map Lit kw @ [WordB, NotDotStar, Dot]) (prev_after prev a) (m2 @ rest)
             = Some (m2, rest)"
    unfolding sentence_pattern_def using match_star[of "WordB # map Lit kw @ [WordB, NotDotStar, Dot]" prev t m rest] by auto
  from match_wordb[OF 2] have b1: "at_boundary (prev_after prev a) (m2 @ rest)"
    and 3: "match_seq (map Lit kw @ [WordB, NotDotStar, Dot]) (prev_after prev a) (m2 @ rest)
             = Some (m2, rest)" by auto
  from match_lits[OF 3] obtain k' m3 where 4: "m2 = k' @ m3" "list_all2 ci_eq kw k'"
    and 5: "match_seq [WordB, NotDotStar, Dot] (prev_after prev (a @ k')) (m3 @ rest) = Some (m3, rest)"
    by auto
  from match_wordb[OF 5] have b2: "at_boundary (prev_after prev (a @ k')) (m3 @ rest)"
    and 6: "match_seq [NotDotStar, Dot] (prev_after prev (a @ k')) (m3 @ rest) = Some (m3, rest)"
    by auto
  from match_star[OF 6] obtain b m4 where 7: "m3 = b @ m4" "CHR ''.'' \<notin> set b"
    and 8: "match_seq [Dot] (prev_after (prev_after prev (a @ k')) b) (m4 @ rest) = Some (m4, rest)"
    by blast
  from match_dot[OF 8] have 9: "m4 = ''.''" .
  have "at_boundary (prev_after prev a) (k' @ b @ ''.'')"
    using b1 at_boundary_append[of "k' @ b @ ''.''" "prev_after prev a" rest] 4 7 9 by simp
  moreover have "at_boundary (prev_after prev (a @ k')) (b @ ''.'')"
    using b2 at_boundary_append[of "b @ ''.''" "prev_after prev (a @ k')" rest] 7 9 by simp
  ultimately show ?thesis
    unfolding sentence_match_def using 1 4 7 9 by blast
qed

lemma star_takes_nonperiod:
  "c \<noteq> CHR ''.'' \<Longrightarrow> match_seq (NotDotStar # r) (Some c) cs = Some (m, rest) \<Longrightarrow>
   match_seq (NotDotStar # r) prev (c # cs) = Some (c # m, rest)"
  by simp

lemma search_found:
  "search (NotDotStar # r) prev t = Some (m, rest) \<Longrightarrow>
   \<exists>skipped. t = skipped @ m @ rest \<and>
     match_seq (NotDotStar # r) (prev_after prev skipped) (m @ rest) = Some (m, rest) \<and>
     (skipped \<noteq> [] \<longrightarrow> last skipped = CHR ''.'')"
proof (induction t arbitrary: prev)
  case Nil
  then have m: "match_seq (NotDotStar # r) prev [] = Some (m, rest)" by simp
  from match_seq_split[OF m] have "m @ rest = []" by simp
  with m show ?case by - (rule exI[of _ "[]"], simp)
next
  case (Cons c cs)
  show ?case
  proof (cases "match_seq (NotDotStar # r) prev (c # cs)")
    case (Some res)
    with Cons.prems have m: "match_seq (NotDotStar # r) prev (c # cs) = Some (m, rest)" by simp
    from match_seq_split[OF m] have "c # cs = m @ rest" .
    with m show ?thesis by - (rule exI[of _ "[]"], simp)
  next
    case None
    with Cons.prems have s: "search (NotDotStar # r) (Some c) cs = Some (m, rest)" by simp
    from Cons.IH[OF s] obtain sk where sk: "cs = sk @ m @ rest"
      "match_seq (NotDotStar # r) (prev_after (Some c) sk) (m @ rest) = Some (m, rest)"
      "sk \<noteq> [] \<longrightarrow> last sk = CHR ''.''" by blast
    have "last (c # sk) = CHR ''.''"
    proof (cases "sk = []")
      case True
      with sk have "match_seq (NotDotStar # r) (Some c) cs = Some (m, rest)" by simp
      with None show ?thesis using True by (auto split: if_splits)
    next
      case False
      with sk show ?thesis by simp
    qed
    with sk show ?thesis by - (rule exI[of _ "c # sk"], simp)
  qed
qed

lemma sentence_match_last: "sentence_match kw prev m rest \<Longrightarrow> m \<noteq> [] \<and> last m = CHR ''.''"
  by (auto simp: sentence_match_def)

lemma search_sentence:
  assumes "search (sentence_pattern kw) prev t = Some (m, rest)"
  shows "\<exists>skipped. t = skipped @ m @ rest \<and>
     sentence_match kw (prev_after prev skipped) m rest \<and>
     (skipped \<noteq> [] \<longrightarrow> last skipped = CHR ''.'')"
proof -
  from assms have "search (NotDotStar # WordB # map Lit kw @ [WordB, NotDotStar, Dot]) prev t
      = Some (m, rest)" by (simp add: sentence_pattern_def)
  from search_found[OF this] obtain sk where sk: "t = sk @ m @ rest"
      "match_seq (sentence_pattern kw) (prev_after prev sk) (m @ rest) = Some (m, rest)"
      "sk \<noteq> [] \<longrightarrow> last sk = CHR ''.''" by (auto simp: sentence_pattern_def)
  from match_sentence[OF sk(2)] sk show ?thesis by blast
qed

lemma search_sentence_shorter:
  assumes "search (sentence_pattern kw) prev t = Some (m, rest)"
  shows "length rest < length t"
proof -
  from search_sentence[OF assms] obtain sk where "t = sk @ m @ rest" "sentence_match kw (prev_after prev sk) m rest"
    by blast
  then show ?thesis using sentence_match_last by fastforce
qed

lemma findall_sentence_matches:
  "m \<in> set (findall pat prev t) \<Longrightarrow> pat = sentence_pattern kw \<Longrightarrow> sentence_start prev \<Longrightarrow>
   \<exists>p rest. sentence_start p \<and> sentence_match kw p m rest"
proof (induction pat prev t rule: findall.induct)
  case (1 pat prev t)
  show ?case
  proof (cases "search pat prev t")
    case None
    with "1.prems" show ?thesis by (simp add: findall.simps)
  next
    case (Some res)
    obtain m' rest' where res: "res = (m', rest')" by (cases res)
    with Some "1.prems" have s: "search (sentence_pattern kw) prev t = Some (m', rest')" by simp
    from search_sentence_shorter[OF s] have short: "length rest' < length t" .
    from search_sentence[OF s] obtain sk where sk: "t = sk @ m' @ rest'"
      "sentence_match kw (prev_after prev sk) m' rest'"
      "sk \<noteq> [] \<longrightarrow> last sk = CHR ''.''" by blast
    have st: "sentence_start (prev_after prev sk)"
      using sk(3) "1.prems"(3) by (auto simp: sentence_start_def prev_after_def)
    from "1.prems"(1) Some res short have "m = m' \<or> m \<in> set (findall pat (Some (last m')) rest')"
      by (simp add: findall.simps)
    then show ?thesis
    proof
      assume "m = m'"
      with sk st show ?thesis by blast
    next
      assume in_rest: "m \<in> set (findall pat (Some (last m')) rest')"
      have "sentence_start (Some (last m'))"
        using sentence_match_last[OF sk(2)] by (simp add: sentence_start_def)
      from "1.IH"[OF Some res[symmetric] short in_rest "1.prems"(2) this] show ?thesis .
    qed
  qed
qed

lemma at_boundary_wordness: "wordness p = wordness q \<Longrightarrow> at_boundary p t = at_boundary q t"
  by (simp add: at_boundary_def wordness_def)

lemma sentence_start_wordness: "sentence_start p \<Longrightarrow> wordness p = False"
  by (auto simp: sentence_start_def wordness_def period_not_word)

lemma ci_prefix_match:
  "list_all2 ci_eq kw k' \<Longrightarrow> ci_prefix kw p (k' @ post) = Some (prev_after p k', post)"
  by (induction kw k' arbitrary: p rule: list_all2_induct) auto

lemma word_atI:
  assumes "list_all2 ci_eq kw k'" "at_boundary p (k' @ y)" "at_boundary (prev_after p k') y"
  shows "word_at kw p (k' @ y)"
  using assms by (simp add: word_at_def ci_prefix_match)

lemma word_at_contains: "word_at kw p s \<Longrightarrow> contains_word kw p s"
  by (cases s) auto

lemma word_at_contains_later:
  "word_at kw (prev_after p pre) s \<Longrightarrow> contains_word kw p (pre @ s)"
proof (induction pre arbitrary: p)
  case Nil
  then show ?case by (simp add: word_at_contains)
next
  case (Cons c pre)
  then show ?case by simp
qed

lemma strip_keeps_end:
  assumes "m \<noteq> []" "\<not> is_space (last m)"
  shows "strip m = dropWhile is_space m"
proof -
  let ?d = "dropWhile is_space m"
  from assms have in_m: "last m \<in> set m" by simp
  with assms(2) have ne: "?d \<noteq> []" by auto
  from in_m assms(2) have "last ?d = last m" by (rule dropWhile_last)
  with ne assms(2) have "\<not> is_space (hd (rev ?d))" by (simp add: hd_rev)
  with ne have "dropWhile is_space (rev ?d) = rev ?d" by (cases "rev ?d") auto
  then show ?thesis by (simp add: strip_def)
qed

lemma sentence_match_strip:
  "sentence_match kw p m rest \<Longrightarrow> strip m = dropWhile is_space m"
  using sentence_match_last[of kw p m rest] strip_keeps_end[of m] period_not_space by auto

lemma sentence_match_contains:
  assumes sm: "sentence_match kw p m rest" and st: "sentence_start p"
  shows "contains_word_ci kw (strip m)"
proof -
  from sm obtain a k' b where m: "m = a @ k' @ b @ ''.''"
    and kw: "list_all2 ci_eq kw k'"
    and b1: "at_boundary (prev_after p a) (k' @ b @ ''.'')"
    and b2: "at_boundary (prev_after p (a @ k')) (b @ ''.'')"
    unfolding sentence_match_def by blast
  let ?y = "k' @ b @ ''.''"
  have strip: "strip m = dropWhile is_space (a @ ?y)"
    using sentence_match_strip[OF sm] m by simp
  show ?thesis
  proof (cases "\<forall>x\<in>set a. is_space x")
    case True
    have wa: "wordness (prev_after p a) = False"
    proof (cases "a = []")
      case True
      with st show ?thesis by (simp add: sentence_start_wordness)
    next
      case False
      with True have "is_space (last a)" by simp
      with False show ?thesis by (simp add: prev_after_def wordness_def space_not_word)
    qed
    then have w0: "wordness (prev_after p a) = wordness None" by (simp add: wordness_def)
    from b1 at_boundary_wordness[OF w0] have n1: "at_boundary None ?y" by simp
    then have "is_word (hd ?y)" by (cases ?y) (auto simp: at_boundary_def)
    then have "\<not> is_space (hd ?y)" using space_not_word by blast
    then have "dropWhile is_space ?y = ?y" by (cases ?y) auto
    with True strip have s: "strip m = ?y" by (simp add: dropWhile_append)
    have "wordness (prev_after p (a @ k')) = wordness (prev_after None k')"
      using w0 by (cases "k' = []") (auto simp: prev_after_def)
    from b2 at_boundary_wordness[OF this] have n2: "at_boundary (prev_after None k') (b @ ''.'')"
      by simp
    from word_atI[OF kw n1 n2] have "word_at kw None ?y" .
    then show ?thesis unfolding contains_word_ci_def s by (rule word_at_contains)
  next
    case False
    then obtain x where x: "x \<in> set a" "\<not> is_space x" by blast
    let ?a = "dropWhile is_space a"
    from x have s: "strip m = ?a @ ?y" using strip by simp
    from x have ne: "?a \<noteq> []" by auto
    have an: "a \<noteq> []" using x by auto
    have "last ?a = last a"
      by (metis ne last_appendR takeWhile_dropWhile_id)
    with ne an have p1: "prev_after p a = prev_after None ?a"
      by (simp add: prev_after_def)
    then have p2: "prev_after p (a @ k') = prev_after (prev_after None ?a) k'"
      by (metis prev_after_simps(4))
    from b1 p1 have n1: "at_boundary (prev_after None ?a) ?y" by simp
    from b2 p2 have n2: "at_boundary (prev_after (prev_after None ?a) k') (b @ ''.'')" by simp
    from word_atI[OF kw n1 n2] have "word_at kw (prev_after None ?a) ?y" .
    then have "contains_word kw None (?a @ ?y)" by (rule word_at_contains_later)
    then show ?thesis unfolding contains_word_ci_def s .
  qed
qed

lemma to_lower_period: "to_lower k = CHR ''.'' \<Longrightarrow> k = CHR ''.''"
proof (cases "is_upper k")
  case False
  assume "to_lower k = CHR ''.''"
  with False show ?thesis by (simp add: to_lower_def)
next
  case True
  assume "to_lower k = CHR ''.''"
  with True have "char_of ((of_char k :: int) + 32) = CHR ''.''" by (simp add: to_lower_def)
  then have "(of_char (char_of ((of_char k :: int) + 32) :: char) :: int) = of_char (CHR ''.'')"
    by simp
  then have "((of_char k :: int) + 32) mod 256 = 46" by simp
  with True show ?thesis by (auto simp: is_upper_def Let_def)
qed

lemma ci_eq_period: "ci_eq k (CHR ''.'') \<Longrightarrow> k = CHR ''.''"
proof -
  assume "ci_eq k (CHR ''.'')"
  then have "to_lower k = to_lower (CHR ''.'')" by (simp add: ci_eq_def)
  also have "to_lower (CHR ''.'') = CHR ''.''" by (simp add: to_lower_def is_upper_def)
  finally show ?thesis by (rule to_lower_period)
qed

lemma ci_match_no_period:
  "list_all2 ci_eq kw k' \<Longrightarrow> CHR ''.'' \<notin> set kw \<Longrightarrow> CHR ''.'' \<notin> set k'"
  by (induction kw k' rule: list_all2_induct) (auto dest: ci_eq_period)

lemma sentence_match_one_period:
  assumes sm: "sentence_match kw p m rest" and kw: "CHR ''.'' \<notin> set kw"
  shows "\<exists>x. strip m = x @ ''.'' \<and> CHR ''.'' \<notin> set x"
proof -
  from sm obtain a k' b where m: "m = a @ k' @ b @ ''.''"
    and np: "CHR ''.'' \<notin> set a" "CHR ''.'' \<notin> set b" and k': "list_all2 ci_eq kw k'"
    unfolding sentence_match_def by blast
  let ?x = "a @ k' @ b"
  from ci_match_no_period[OF k' kw] np have nx: "CHR ''.'' \<notin> set ?x" by simp
  have "dropWhile is_space (?x @ ''.'') = dropWhile is_space ?x @ ''.''"
    using period_not_space by (simp add: dropWhile_append)
  with sentence_match_strip[OF sm] m have "strip m = dropWhile is_space ?x @ ''.''" by simp
  moreover have "CHR ''.'' \<notin> set (dropWhile is_space ?x)"
    using nx set_dropWhileD by fast
  ultimately show ?thesis by blast
qed

lemma dedup_into_append: "dedup_into acc (xs @ ys) = dedup_into (dedup_into acc xs) ys"
  by (induction xs arbitrary: acc) auto

lemma set_dedup_into: "set (dedup_into acc xs) = set acc \<union> set xs"
  by (induction xs arbitrary: acc) auto

lemma distinct_dedup_into: "distinct acc \<Longrightarrow> distinct (dedup_into acc xs)"
  by (induction xs arbitrary: acc) auto


lemma add_matches_closed:
  "map_of res c = Some old \<Longrightarrow>
   add_matches c res ms
     = Inr (AList.update c (dedup_into old (filter length_ok (map strip ms))) res)"
proof (induction ms arbitrary: res old)
  case Nil
  then show ?case by (simp add: update_triv)
next
  case (Cons m ms)
  show ?case
  proof (cases "length_ok (strip m) \<and> strip m \<notin> set old")
    case True
    let ?res1 = "AList.update c (old @ [strip m]) res"
    from True Cons.prems have step: "add_match c res m = Inr ?res1"
      by (simp add: add_match_def Let_def)
    have "map_of ?res1 c = Some (old @ [strip m])" by (simp add: update_conv')
    from Cons.IH[OF this] step True show ?thesis by simp
  next
    case False
    with Cons.prems have step: "add_match c res m = Inr res"
      by (auto simp: add_match_def Let_def)
    from Cons.IH[OF Cons.prems] step False show ?thesis by auto
  qed
qed

lemma add_matches_missing:
  "map_of res c = None \<Longrightarrow>
   add_matches c res ms
     = (if filter length_ok (map strip ms) = [] then Inr res else Inl KeyError)"
proof (induction ms)
  case Nil
  show ?case by simp
next
  case (Cons m ms)
  then show ?case by (simp add: add_match_def Let_def)
qed

lemma add_keyword_closed:
  "map_of res c = Some old \<Longrightarrow>
   add_keyword text c res kw = Inr (AList.update c (dedup_into old (keyword_candidates text kw)) res)"
  by (simp add: add_keyword_def keyword_candidates_def add_matches_closed)

lemma add_keyword_missing:
  "map_of res c = None \<Longrightarrow>
   add_keyword text c res kw = (if keyword_candidates text kw = [] then Inr res else Inl KeyError)"
  by (simp add: add_keyword_def keyword_candidates_def add_matches_missing)

lemma add_keywords_closed:
  "map_of res c = Some old \<Longrightarrow>
   add_keywords text c res kws
     = Inr (AList.update c (dedup_into old (category_candidates text kws)) res)"
proof (induction kws arbitrary: res old)
  case Nil
  then show ?case by (simp add: category_candidates_def update_triv)
next
  case (Cons k kws)
  let ?res1 = "AList.update c (dedup_into old (keyword_candidates text k)) res"
  have "map_of ?res1 c = Some (dedup_into old (keyword_candidates text k))"
    by (simp add: update_conv')
  from Cons.IH[OF this] add_keyword_closed[OF Cons.prems, of "text" k]
  show ?case by (simp add: category_candidates_def dedup_into_append)
qed

lemma add_keywords_missing:
  "map_of res c = None \<Longrightarrow>
   add_keywords text c res kws
     = (if category_candidates text kws = [] then Inr res else Inl KeyError)"
proof (induction kws)
  case Nil
  show ?case by (simp add: category_candidates_def)
next
  case (Cons k kws)
  then show ?case by (simp add: category_candidates_def add_keyword_missing)
qed

text \<open>What one category's pass does to the dict.\<close>

lemma add_keywords_result:
  assumes "add_keywords text c res kws = Inr res'"
  shows "(\<forall>c'. c' \<noteq> c \<longrightarrow> map_of res' c' = map_of res c') \<and>
         (case map_of res c of
            None \<Rightarrow> map_of res' c = None \<and> category_candidates text kws = []
          | Some old \<Rightarrow> map_of res' c = Some (dedup_into old (category_candidates text kws)))"
proof (cases "map_of res c")
  case None
  with assms add_keywords_missing[OF None, of "text" kws] show ?thesis
    by (auto split: if_splits)
next
  case (Some old)
  with assms add_keywords_closed[OF Some, of "text" kws] show ?thesis
    by (auto simp: update_conv')
qed

lemma add_categories_inv:
  assumes run: "add_categories text res catalog = Inr res'"
    and init: "\<And>c old. map_of res c = Some old \<Longrightarrow> I c old"
    and step: "\<And>c kws old. (c, kws) \<in> set catalog \<Longrightarrow> I c old
                 \<Longrightarrow> I c (dedup_into old (category_candidates text kws))"
    and get: "map_of res' c = Some spans"
  shows "I c spans"
  using run init step get
proof (induction catalog arbitrary: res)
  case Nil
  then show ?case by simp
next
  case (Cons entry catalog)
  obtain c1 kws where entry: "entry = (c1, kws)" by (cases entry)
  from Cons.prems(1) entry obtain res1 where r1: "add_keywords text c1 res kws = Inr res1"
    and r2: "add_categories text res1 catalog = Inr res'"
    by (auto split: sum.splits)
  note k = add_keywords_result[OF r1]
  have init1: "\<And>c old. map_of res1 c = Some old \<Longrightarrow> I c old"
  proof -
    fix c old assume g: "map_of res1 c = Some old"
    show "I c old"
    proof (cases "c = c1")
      case False
      with k g have "map_of res c = Some old" by simp
      then show ?thesis by (rule Cons.prems(2))
    next
      case True
      show ?thesis
      proof (cases "map_of res c1")
        case None
        with k g True show ?thesis by simp
      next
        case (Some old0)
        with k g True have o: "old = dedup_into old0 (category_candidates text kws)" by simp
        from Cons.prems(2)[OF Some] have "I c1 old0" .
        with Cons.prems(3)[of c1 kws old0] entry show ?thesis unfolding o True by simp
      qed
    qed
  qed
  show ?case
  proof (rule Cons.IH[OF r2 _ _ Cons.prems(4)])
    fix c old assume "map_of res1 c = Some old"
    then show "I c old" by (rule init1)
  next
    fix c kws old assume "(c, kws) \<in> set catalog" "I c old"
    then show "I c (dedup_into old (category_candidates text kws))"
      using Cons.prems(3)[of c kws old] by simp
  qed
qed

lemma add_categories_grows:
  "add_categories text res catalog = Inr res' \<Longrightarrow> map_of res c = Some old \<Longrightarrow>
   \<exists>spans. map_of res' c = Some spans \<and> set old \<subseteq> set spans"
proof (induction catalog arbitrary: res old)
  case Nil
  then show ?case by simp
next
  case (Cons entry catalog)
  obtain c1 kws where entry: "entry = (c1, kws)" by (cases entry)
  from Cons.prems(1) entry obtain res1 where r1: "add_keywords text c1 res kws = Inr res1"
    and r2: "add_categories text res1 catalog = Inr res'"
    by (auto split: sum.splits)
  note k = add_keywords_result[OF r1]
  from k Cons.prems(2) obtain old1 where o1: "map_of res1 c = Some old1" "set old \<subseteq> set old1"
    by (cases "c = c1") (auto simp: set_dedup_into)
  from Cons.IH[OF r2 o1(1)] o1(2) show ?case by blast
qed

lemma add_categories_complete:
  "add_categories text res catalog = Inr res' \<Longrightarrow> (c, kws) \<in> set catalog \<Longrightarrow>
   s \<in> set (category_candidates text kws) \<Longrightarrow>
   \<exists>spans. map_of res' c = Some spans \<and> s \<in> set spans"
proof (induction catalog arbitrary: res)
  case Nil
  then show ?case by simp
next
  case (Cons entry catalog)
  obtain c1 kws1 where entry: "entry = (c1, kws1)" by (cases entry)
  from Cons.prems(1) entry obtain res1 where r1: "add_keywords text c1 res kws1 = Inr res1"
    and r2: "add_categories text res1 catalog = Inr res'"
    by (auto split: sum.splits)
  note k = add_keywords_result[OF r1]
  show ?case
  proof (cases "(c, kws) = (c1, kws1)")
    case True
    with k Cons.prems(3) obtain old1 where "map_of res1 c = Some old1" "s \<in> set old1"
      by (cases "map_of res c") (auto simp: set_dedup_into)
    with add_categories_grows[OF r2, of c old1] show ?thesis by blast
  next
    case False
    with Cons.prems(2) entry have "(c, kws) \<in> set catalog" by auto
    from Cons.IH[OF r2 this Cons.prems(3)] show ?thesis .
  qed
qed

lemma match_ends_in_period:
  "match_seq pat prev t = Some (m, rest) \<Longrightarrow> pat \<noteq> [] \<Longrightarrow> last pat = Dot \<Longrightarrow>
   CHR ''.'' \<in> set m"
proof (induction pat prev t arbitrary: m rest rule: match_seq.induct)
  case (1 prev t)
  then show ?case by simp
next
  case (2 r prev)
  then show ?case by simp
next
  case (3 r prev c cs)
  then show ?case by (auto split: if_splits option.splits)
next
  case (4 k r prev)
  then show ?case by simp
next
  case (5 k r prev c cs)
  then show ?case by (cases "r = []") (auto split: if_splits option.splits)
next
  case (6 r prev t)
  then show ?case by (cases "r = []") (auto split: if_splits)
next
  case (7 r prev)
  then show ?case by (cases "r = []") auto
next
  case (8 r prev c cs)
  then show ?case by (cases "r = []") (auto split: if_splits option.splits)
qed

lemma no_period_no_match:
  assumes "CHR ''.'' \<notin> set t" "pat \<noteq> []" "last pat = Dot"
  shows "match_seq pat prev t = None"
proof (cases "match_seq pat prev t")
  case None
  then show ?thesis .
next
  case (Some res)
  obtain m rest where "res = (m, rest)" by (cases res)
  with Some have s: "match_seq pat prev t = Some (m, rest)" by simp
  from match_ends_in_period[OF s assms(2,3)] match_seq_split[OF s] assms(1)
  show ?thesis by auto
qed

lemma no_period_no_search:
  "CHR ''.'' \<notin> set t \<Longrightarrow> pat \<noteq> [] \<Longrightarrow> last pat = Dot \<Longrightarrow> search pat prev t = None"
  by (induction t arbitrary: prev) (simp_all add: no_period_no_match)

lemma keep_tail_simps [simp]:
  "keep_tail suf None = None" "keep_tail suf (Some (m, rest)) = Some (m, rest @ suf)"
  by (simp_all add: keep_tail_def)

lemma match_seq_tail:
  "pat \<noteq> [] \<Longrightarrow> last pat = Dot \<Longrightarrow> CHR ''.'' \<notin> set suf \<Longrightarrow>
   match_seq pat prev (x @ suf) = keep_tail suf (match_seq pat prev x)"
proof (induction pat prev x rule: match_seq.induct)
  case (1 prev t)
  then show ?case by simp
next
  case (2 r prev)
  then show ?case by (simp add: no_period_no_match)
next
  case (3 r prev c cs)
  then show ?case by (cases "r = []") (auto split: option.splits)
next
  case (4 k r prev)
  then show ?case by (simp add: no_period_no_match)
next
  case (5 k r prev c cs)
  then show ?case by (cases "r = []") (auto split: option.splits)
next
  case (6 r prev t)
  show ?case
  proof (cases "t = []")
    case True
    have "match_seq (WordB # r) prev suf = None" "match_seq (WordB # r) prev [] = None"
      using 6 by (simp_all only: no_period_no_match[of _ "WordB # r"] set_simps empty_iff
          not_False_eq_True)
    with True show ?thesis by simp
  next
    case False
    then have b: "at_boundary prev (t @ suf) = at_boundary prev t" by (rule at_boundary_append)
    from 6 have "r \<noteq> []" by auto
    with 6 b show ?thesis by auto
  qed
next
  case (7 r prev)
  have "match_seq (NotDotStar # r) prev suf = None" "match_seq (NotDotStar # r) prev [] = None"
    using 7 by (simp_all only: no_period_no_match[of _ "NotDotStar # r"] set_simps empty_iff
        not_False_eq_True)
  then show ?case by simp
next
  case (8 r prev c cs)
  from 8 have r: "r \<noteq> []" "last r = Dot" by (auto split: if_splits)
  show ?case
  proof (cases "c = CHR ''.''")
    case True
    with 8 r show ?thesis by simp
  next
    case False
    with 8 r show ?thesis by (auto split: option.splits)
  qed
qed

lemma search_tail:
  "pat \<noteq> [] \<Longrightarrow> last pat = Dot \<Longrightarrow> CHR ''.'' \<notin> set suf \<Longrightarrow>
   search pat prev (x @ suf) = keep_tail suf (search pat prev x)"
proof (induction x arbitrary: prev)
  case Nil
  then show ?case by (simp add: no_period_no_search no_period_no_match)
next
  case (Cons c cs)
  from match_seq_tail[OF Cons.prems, of prev "c # cs"] Cons.IH[OF Cons.prems, of "Some c"]
  show ?case by (cases "match_seq pat prev (c # cs)") auto
qed

lemma findall_tail:
  "pat \<noteq> [] \<Longrightarrow> last pat = Dot \<Longrightarrow> CHR ''.'' \<notin> set suf \<Longrightarrow>
   findall pat prev (x @ suf) = findall pat prev x"
proof (induction pat prev x rule: findall.induct)
  case (1 pat prev t)
  note st = search_tail[OF "1.prems", of prev t]
  show ?case
  proof (cases "search pat prev t")
    case None
    with st show ?thesis by (simp add: findall.simps)
  next
    case (Some res)
    obtain m rest where res: "res = (m, rest)" by (cases res)
    show ?thesis
    proof (cases "length rest < length t")
      case True
      from "1.IH"[OF Some res[symmetric] True "1.prems"] Some res st True
      show ?thesis by (simp add: findall.simps[of pat prev t] findall.simps[of pat prev "t @ suf"])
    next
      case False
      with Some res st show ?thesis
        by (simp add: findall.simps[of pat prev t] findall.simps[of pat prev "t @ suf"])
    qed
  qed
qed

lemma sentence_pattern_ends: "sentence_pattern kw \<noteq> []" "last (sentence_pattern kw) = Dot"
  by (simp_all add: sentence_pattern_def)

lemma strip_idem: "strip (strip m) = strip m"
proof -
  let ?d = "dropWhile is_space m"
  let ?e = "dropWhile is_space (rev ?d)"
  have s: "strip m = rev ?e" by (simp add: strip_def)
  show ?thesis
  proof (cases "?e = []")
    case True
    with s have "strip m = []" by simp
    moreover have "strip [] = []" by (simp add: strip_def)
    ultimately show ?thesis by simp
  next
    case False
    then have d: "?d \<noteq> []" by (cases "?d = []") simp_all
    have "last ?e = last (rev ?d)"
      by (metis False last_appendR takeWhile_dropWhile_id)
    also have "\<dots> = hd ?d" using d by (simp add: last_rev)
    finally have "\<not> is_space (last ?e)" using d hd_dropWhile[of is_space m] by simp
    then have "\<not> is_space (hd (rev ?e))" using False by (simp add: hd_rev)
    then have 1: "dropWhile is_space (rev ?e) = rev ?e" using False by (cases "rev ?e") auto
    have "strip (rev ?e) = rev (dropWhile is_space (rev (dropWhile is_space (rev ?e))))"
      by (simp add: strip_def)
    also have "\<dots> = rev ?e" by (simp only: 1 rev_rev_ident dropWhile_idem)
    finally show ?thesis using s by simp
  qed
qed

lemma add_categories_total:
  "fst ` set catalog \<subseteq> fst ` set res \<Longrightarrow> \<exists>res'. add_categories text res catalog = Inr res'"
proof (induction catalog arbitrary: res)
  case Nil
  show ?case by simp
next
  case (Cons entry catalog)
  obtain c kws where entry: "entry = (c, kws)" by (cases entry)
  with Cons.prems have "c \<in> fst ` set res" by auto
  then obtain old where old: "map_of res c = Some old"
    by (metis domD dom_map_of_conv_image_fst)
  let ?res1 = "AList.update c (dedup_into old (category_candidates text kws)) res"
  have "fst ` set catalog \<subseteq> fst ` set ?res1" using Cons.prems by (auto simp: dom_update)
  from Cons.IH[OF this] add_keywords_closed[OF old, of "text" kws] entry show ?case by simp
qed

lemma candidates_iff:
  "s \<in> set (category_candidates text kws) \<longleftrightarrow>
   (\<exists>k\<in>set kws. \<exists>m\<in>set (keyword_matches text k). s = strip m \<and> length_ok s)"
  by (auto simp: category_candidates_def keyword_candidates_def)

lemma keyword_match_shape:
  assumes "m \<in> set (keyword_matches text k)"
  shows "\<exists>p rest. sentence_start p \<and> sentence_match k p m rest"
proof -
  from assms have "m \<in> set (findall (sentence_pattern k) None text)"
    unfolding keyword_matches_def by (rule in_set_takeD)
  then show ?thesis
    by (rule findall_sentence_matches) (simp_all add: sentence_start_def)
qed

lemma empty_results_init: "map_of empty_results c = Some old \<Longrightarrow> old = []"
  by (auto simp: empty_results_def split: if_splits)

lemma extract_three:
  "add_categories text empty_results
     [(''Environmental'', kE), (''Social'', kS), (''Governance'', kG)]
   = Inr [(''Environmental'', dedup_into [] (category_candidates text kE)),
          (''Social'', dedup_into [] (category_candidates text kS)),
          (''Governance'', dedup_into [] (category_candidates text kG))]"
proof -
  let ?r1 = "[(''Environmental'', dedup_into [] (category_candidates text kE)),
              (''Social'', []), (''Governance'', [])]"
  let ?r2 = "[(''Environmental'', dedup_into [] (category_candidates text kE)),
              (''Social'', dedup_into [] (category_candidates text kS)), (''Governance'', [])]"
  have 1: "add_keywords text ''Environmental'' empty_results kE = Inr ?r1"
    by (subst add_keywords_closed[of _ _ "[]"]) (simp_all add: empty_results_def)
  have 2: "add_keywords text ''Social'' ?r1 kS = Inr ?r2"
    by (subst add_keywords_closed[of _ _ "[]"]) simp_all
  have 3: "add_keywords text ''Governance'' ?r2 kG
      = Inr [(''Environmental'', dedup_into [] (category_candidates text kE)),
          (''Social'', dedup_into [] (category_candidates text kS)),
          (''Governance'', dedup_into [] (category_candidates text kG))]"
    by (subst add_keywords_closed[of _ _ "[]"]) simp_all
  show ?thesis by (simp add: 1 2 3)
qed

lemma demo_eval:
  "keyword_matches demo_text ''ethics'' = [demo_text]"
  "collapse_ws demo_text = demo_text"
  "strip demo_text = demo_text"
  "length_ok demo_text"
  by code_simp+

lemma ethics_in_catalog:
  "\<exists>kws. (''Governance'', kws) \<in> set ESG_KEYWORDS \<and> ''ethics'' \<in> set kws"
  by (auto simp: ESG_KEYWORDS_def)

lemma demo_run:
  "\<exists>res spans. extract_esg_sections ESG_KEYWORDS (\<lambda>x. x) demo_text ''Apple'' = Inr res \<and>
     map_of res ''Governance'' = Some spans \<and> demo_text \<in> set spans"
proof -
  have "fst ` set ESG_KEYWORDS \<subseteq> fst ` set empty_results"
    by (simp add: ESG_KEYWORDS_def empty_results_def)
  from add_categories_total[OF this, of demo_text] obtain res
    where res: "add_categories demo_text empty_results ESG_KEYWORDS = Inr res" by blast
  from ethics_in_catalog obtain kws where kws: "(''Governance'', kws) \<in> set ESG_KEYWORDS"
    "''ethics'' \<in> set kws" by blast
  have "demo_text \<in> set (category_candidates demo_text kws)"
    unfolding candidates_iff using kws(2) demo_eval by - (rule bexI[of _ "''ethics''"], auto)
  from add_categories_complete[OF res kws(1) this] res show ?thesis
    by (auto simp: extract_esg_sections_def demo_eval)
qed

lemma ci_prefix_Some:
  "ci_prefix kw p t = Some (q, rest) \<Longrightarrow>
   \<exists>mid. t = mid @ rest \<and> list_all2 ci_eq kw mid \<and> q = prev_after p mid"
proof (induction kw arbitrary: p t)
  case Nil
  then show ?case by simp
next
  case (Cons k kw)
  then obtain c cs where t: "t = c # cs" by (cases t) auto
  with Cons.prems have ci: "ci_eq k c" and rec: "ci_prefix kw (Some c) cs = Some (q, rest)"
    by (auto split: if_splits)
  from Cons.IH[OF rec] obtain mid where "cs = mid @ rest" "list_all2 ci_eq kw mid"
    "q = prev_after (Some c) mid" by blast
  with t ci show ?case by - (rule exI[of _ "c # mid"], simp)
qed

text \<open>The scan \<open>contains_word\<close> finds exactly the whole-word occurrences.\<close>

lemma contains_word_iff:
  "contains_word kw p t \<longleftrightarrow>
   (\<exists>pre mid post. t = pre @ mid @ post \<and> list_all2 ci_eq kw mid \<and>
      at_boundary (prev_after p pre) (mid @ post) \<and>
      at_boundary (prev_after p (pre @ mid)) post)"
proof
  assume "contains_word kw p t"
  then show "\<exists>pre mid post. t = pre @ mid @ post \<and> list_all2 ci_eq kw mid \<and>
      at_boundary (prev_after p pre) (mid @ post) \<and>
      at_boundary (prev_after p (pre @ mid)) post"
  proof (induction t arbitrary: p)
    case Nil
    then obtain q rest where b: "at_boundary p []" and c: "ci_prefix kw p [] = Some (q, rest)"
      and e: "at_boundary q rest" by (auto simp: word_at_def split: option.splits)
    from ci_prefix_Some[OF c] obtain mid where "[] = mid @ rest" "list_all2 ci_eq kw mid"
      "q = prev_after p mid" by blast
    with b e show ?case by - (rule exI[of _ "[]"], rule exI[of _ "[]"], rule exI[of _ "[]"], simp)
  next
    case (Cons c cs)
    from Cons.prems consider "word_at kw p (c # cs)" | "contains_word kw (Some c) cs" by auto
    then show ?case
    proof cases
      case 1
      then obtain q rest where b: "at_boundary p (c # cs)"
        and cp: "ci_prefix kw p (c # cs) = Some (q, rest)" and e: "at_boundary q rest"
        by (auto simp: word_at_def split: option.splits)
      from ci_prefix_Some[OF cp] obtain mid where "c # cs = mid @ rest" "list_all2 ci_eq kw mid"
        "q = prev_after p mid" by blast
      with b e show ?thesis
        by - (rule exI[of _ "[]"], rule exI[of _ mid], rule exI[of _ rest], simp)
    next
      case 2
      from Cons.IH[OF 2] obtain pre mid post where "cs = pre @ mid @ post"
        "list_all2 ci_eq kw mid" "at_boundary (prev_after (Some c) pre) (mid @ post)"
        "at_boundary (prev_after (Some c) (pre @ mid)) post" by blast
      then show ?thesis
        by - (rule exI[of _ "c # pre"], rule exI[of _ mid], rule exI[of _ post], simp)
    qed
  qed
next
  assume "\<exists>pre mid post. t = pre @ mid @ post \<and> list_all2 ci_eq kw mid \<and>
      at_boundary (prev_after p pre) (mid @ post) \<and>
      at_boundary (prev_after p (pre @ mid)) post"
  then obtain pre mid post where t: "t = pre @ mid @ post" and k: "list_all2 ci_eq kw mid"
    and b1: "at_boundary (prev_after p pre) (mid @ post)"
    and b2: "at_boundary (prev_after p (pre @ mid)) post" by blast
  from b2 have "at_boundary (prev_after (prev_after p pre) mid) post" by simp
  from word_atI[OF k b1 this] have "word_at kw (prev_after p pre) (mid @ post)" .
  then show "contains_word kw p t" unfolding t by (rule word_at_contains_later)
qed

section \<open>The claims about the span extractor\<close>

text \<open>
  C1. For every keyword and text, every match of the keyword that the extractor takes
  contains, once trimmed, the keyword as a case-insensitive whole-word match; so every
  span in a category's list of the result contains one of that category's keywords as a
  case-insensitive whole-word match.
\<close>

theorem spans_contain_keyword:
  "(m \<in> set (keyword_matches text k) \<longrightarrow> contains_word_ci k (strip m)) \<and>
   (extract_esg_sections keywords get_text html_content company_name = Inr res \<longrightarrow>
    map_of res category = Some spans \<longrightarrow> sp \<in> set spans \<longrightarrow>
    (\<exists>kws kw. (category, kws) \<in> set keywords \<and> kw \<in> set kws \<and> contains_word_ci kw sp))"
proof (intro conjI impI)
  assume "m \<in> set (keyword_matches text k)"
  from keyword_match_shape[OF this] show "contains_word_ci k (strip m)"
    using sentence_match_contains by blast
next
  let ?t = "collapse_ws (get_text html_content)"
  let ?I = "\<lambda>c l. \<forall>s\<in>set l. \<exists>kws kw. (c, kws) \<in> set keywords \<and> kw \<in> set kws \<and> contains_word_ci kw s"
  assume "extract_esg_sections keywords get_text html_content company_name = Inr res"
  then have run: "add_categories ?t empty_results keywords = Inr res"
    by (simp add: extract_esg_sections_def)
  assume get: "map_of res category = Some spans" and span: "sp \<in> set spans"
  have "?I category spans"
  proof (rule add_categories_inv[OF run _ _ get, of ?I])
    fix c old assume "map_of empty_results c = Some old"
    then show "?I c old" by (auto dest: empty_results_init)
  next
    fix c kws old assume c: "(c, kws) \<in> set keywords" and old: "?I c old"
    show "?I c (dedup_into old (category_candidates ?t kws))"
    proof
      fix s assume "s \<in> set (dedup_into old (category_candidates ?t kws))"
      then consider "s \<in> set old" | "s \<in> set (category_candidates ?t kws)"
        by (auto simp: set_dedup_into)
      then show "\<exists>kws kw. (c, kws) \<in> set keywords \<and> kw \<in> set kws \<and> contains_word_ci kw s"
      proof cases
        case 1
        with old show ?thesis by blast
      next
        case 2
        then obtain kw m where kw: "kw \<in> set kws" and m: "m \<in> set (keyword_matches ?t kw)"
          and s: "s = strip m" unfolding candidates_iff by blast
        from keyword_match_shape[OF m] have "contains_word_ci kw (strip m)"
          using sentence_match_contains by blast
        with c kw s show ?thesis by blast
      qed
    qed
  qed
  with span show "\<exists>kws kw. (category, kws) \<in> set keywords \<and> kw \<in> set kws \<and> contains_word_ci kw sp"
    by blast
qed

theorem spans_contain_keyword_witness:
  "demo_text \<in> set (keyword_matches demo_text ''ethics'') \<and>
   contains_word_ci ''ethics'' (strip demo_text) \<and>
   (\<exists>res spans. extract_esg_sections ESG_KEYWORDS (\<lambda>x. x) demo_text ''Apple'' = Inr res \<and>
      map_of res ''Governance'' = Some spans \<and> demo_text \<in> set spans \<and>
      (\<exists>kws kw. (''Governance'', kws) \<in> set ESG_KEYWORDS \<and> kw \<in> set kws \<and>
        contains_word_ci kw demo_text))"
proof -
  have m: "demo_text \<in> set (keyword_matches demo_text ''ethics'')" by (simp add: demo_eval)
  from demo_run obtain res spans where
    r: "extract_esg_sections ESG_KEYWORDS (\<lambda>x. x) demo_text ''Apple'' = Inr res"
       "map_of res ''Governance'' = Some spans" "demo_text \<in> set spans" by blast
  from spans_contain_keyword[of demo_text demo_text "''ethics''" ESG_KEYWORDS "\<lambda>x. x" demo_text
      "''Apple''" res "''Governance''" spans demo_text] m r
  show ?thesis by blast
qed

lemma whole_word_examples:
  "\<not> contains_word_ci ''board'' ''We walked along the boardwalk.''"
  "contains_word_ci ''board'' ''The Board met.''"
  "keyword_matches ''We walked along the boardwalk. The Board met.'' ''board'' = ['' The Board met.'']"
  by code_simp+

text \<open>
  C4. Every span in the result is trimmed, and its length is strictly greater than 50 and
  strictly less than 500.
\<close>

theorem span_lengths_bounded:
  assumes "extract_esg_sections keywords get_text html_content company_name = Inr res"
    and "map_of res category = Some spans" and "sp \<in> set spans"
  shows "strip sp = sp \<and> 50 < length sp \<and> length sp < 500"
proof -
  let ?t = "collapse_ws (get_text html_content)"
  let ?I = "\<lambda>c l. \<forall>s\<in>set l. strip s = s \<and> length_ok s"
  from assms(1) have run: "add_categories ?t empty_results keywords = Inr res"
    by (simp add: extract_esg_sections_def)
  have "?I category spans"
  proof (rule add_categories_inv[OF run _ _ assms(2), of ?I])
    fix c old assume "map_of empty_results c = Some old"
    then show "?I c old" by (auto dest: empty_results_init)
  next
    fix c kws old assume old: "?I c old"
    show "?I c (dedup_into old (category_candidates ?t kws))"
      using old by (auto simp: set_dedup_into candidates_iff strip_idem)
  qed
  with assms(3) show ?thesis by (simp add: length_ok_def)
qed

theorem span_lengths_bounded_witness:
  "\<exists>res spans. extract_esg_sections ESG_KEYWORDS (\<lambda>x. x) demo_text ''Apple'' = Inr res \<and>
     map_of res ''Governance'' = Some spans \<and> demo_text \<in> set spans \<and>
     strip demo_text = demo_text \<and> 50 < length demo_text \<and> length demo_text < 500"
proof -
  from demo_run obtain res spans where
    r: "extract_esg_sections ESG_KEYWORDS (\<lambda>x. x) demo_text ''Apple'' = Inr res"
       "map_of res ''Governance'' = Some spans" "demo_text \<in> set spans" by blast
  from span_lengths_bounded[OF r] r show ?thesis by blast
qed

text \<open>
  C5. No category's list holds a string twice. The lists of two categories do not
  depend on each other: every trimmed match of a keyword of a category that passes the
  length filter is in that category's list, also when another category has it too.
\<close>

theorem category_spans_distinct:
  assumes "extract_esg_sections keywords get_text html_content company_name = Inr res"
  shows "(map_of res category = Some spans \<longrightarrow> distinct spans) \<and>
         ((category, kws) \<in> set keywords \<longrightarrow> k \<in> set kws \<longrightarrow>
          m \<in> set (keyword_matches (collapse_ws (get_text html_content)) k) \<longrightarrow>
          length_ok (strip m) \<longrightarrow>
          (\<exists>l. map_of res category = Some l \<and> strip m \<in> set l))"
proof (intro conjI impI)
  let ?t = "collapse_ws (get_text html_content)"
  from assms have run: "add_categories ?t empty_results keywords = Inr res"
    by (simp add: extract_esg_sections_def)
  {
    assume get: "map_of res category = Some spans"
    show "distinct spans"
    proof (rule add_categories_inv[OF run _ _ get, of "\<lambda>c l. distinct l"])
      fix c old assume "map_of empty_results c = Some old"
      then show "distinct old" by (auto dest: empty_results_init)
    next
      fix c :: string and kws and old :: "string list" assume "distinct old"
      then show "distinct (dedup_into old (category_candidates ?t kws))"
        by (rule distinct_dedup_into)
    qed
  }
  {
    assume c: "(category, kws) \<in> set keywords" and k: "k \<in> set kws"
      and m: "m \<in> set (keyword_matches ?t k)" and ok: "length_ok (strip m)"
    from k m ok have "strip m \<in> set (category_candidates ?t kws)"
      unfolding candidates_iff by blast
    from add_categories_complete[OF run c this]
    show "\<exists>l. map_of res category = Some l \<and> strip m \<in> set l" .
  }
qed

lemma demo_catalog_eval:
  "extract_esg_sections demo_catalog (\<lambda>x. x) demo_text ''Apple''
     = Inr [(''Environmental'', []), (''Social'', [demo_text]), (''Governance'', [demo_text])]"
  by code_simp

theorem category_spans_distinct_witness:
  "extract_esg_sections demo_catalog (\<lambda>x. x) demo_text ''Apple''
     = Inr [(''Environmental'', []), (''Social'', [demo_text]), (''Governance'', [demo_text])] \<and>
   distinct [demo_text] \<and>
   demo_text \<in> set (keyword_matches demo_text ''policy'') \<and>
   demo_text \<in> set (keyword_matches demo_text ''ethics'') \<and>
   (\<exists>l. map_of [(''Environmental'', []), (''Social'', [demo_text]), (''Governance'', [demo_text])]
          ''Governance'' = Some l \<and> strip demo_text \<in> set l)"
proof -
  have p: "keyword_matches demo_text ''policy'' = [demo_text]" by code_simp
  have c: "(''Governance'', [''ethics'']) \<in> set demo_catalog" by (simp add: demo_catalog_def)
  from category_spans_distinct[OF demo_catalog_eval, of "''Governance''" "[demo_text]"
      "[''ethics'']" "''ethics''" demo_text] c p demo_eval demo_catalog_eval
  show ?thesis by simp
qed






lemma add_keyword_tail:
  "CHR ''.'' \<notin> set suf \<Longrightarrow> keyword_matches (t @ suf) k = keyword_matches t k"
  by (simp add: keyword_matches_def findall_tail sentence_pattern_ends)

lemma add_keywords_tail:
  "CHR ''.'' \<notin> set suf \<Longrightarrow> add_keywords (t @ suf) c res kws = add_keywords t c res kws"
  by (induction kws arbitrary: res)
     (auto simp: add_keyword_def add_keyword_tail split: sum.splits)

lemma add_categories_tail:
  "CHR ''.'' \<notin> set suf \<Longrightarrow> add_categories (t @ suf) res catalog = add_categories t res catalog"
  by (induction catalog arbitrary: res) (auto simp: add_keywords_tail split: sum.splits)

lemma findall_ends_in_period:
  assumes "m \<in> set (findall (sentence_pattern k) None text)"
  shows "m \<noteq> [] \<and> last m = CHR ''.''"
proof -
  from assms have "\<exists>p rest. sentence_start p \<and> sentence_match k p m rest"
    by (rule findall_sentence_matches) (simp_all add: sentence_start_def)
  then show ?thesis using sentence_match_last by blast
qed

text \<open>
  C7. Text with no period in it gives no match, and appending such text to any text
  changes neither the matches of a keyword nor the result of the loops: a keyword with
  no period after it is never matched. Every match ends in a period.
\<close>

theorem no_period_no_span:
  assumes "CHR ''.'' \<notin> set suf"
  shows "keyword_matches suf keyword = [] \<and>
         keyword_matches (t @ suf) keyword = keyword_matches t keyword \<and>
         add_categories (t @ suf) res keywords = add_categories t res keywords \<and>
         (m \<in> set (findall (sentence_pattern keyword) None (t @ suf)) \<longrightarrow>
            m \<noteq> [] \<and> last m = CHR ''.'')"
proof (intro conjI impI)
  have "keyword_matches ([] @ suf) keyword = keyword_matches [] keyword"
    using assms by (rule add_keyword_tail)
  moreover have "keyword_matches [] keyword = []"
    by (simp add: keyword_matches_def findall.simps no_period_no_match sentence_pattern_ends)
  ultimately show "keyword_matches suf keyword = []" by simp
next
  show "keyword_matches (t @ suf) keyword = keyword_matches t keyword"
    using assms by (rule add_keyword_tail)
next
  show "add_categories (t @ suf) res keywords = add_categories t res keywords"
    using assms by (rule add_categories_tail)
next
  assume "m \<in> set (findall (sentence_pattern keyword) None (t @ suf))"
  then show "m \<noteq> []" "last m = CHR ''.''" using findall_ends_in_period by blast+
qed

theorem no_period_no_span_witness:
  "CHR ''.'' \<notin> set '' A later word on ethics with no end'' \<and>
   keyword_matches '' A later word on ethics with no end'' ''ethics'' = [] \<and>
   keyword_matches (demo_text @ '' A later word on ethics with no end'') ''ethics'' = [demo_text] \<and>
   last demo_text = CHR ''.''"
proof -
  have h: "CHR ''.'' \<notin> set '' A later word on ethics with no end''" by simp
  have "demo_text \<in> set (findall (sentence_pattern ''ethics'') None
          (demo_text @ '' A later word on ethics with no end''))"
    using findall_tail[OF sentence_pattern_ends h, of "''ethics''" None demo_text] demo_eval(1)
    by (metis in_set_takeD keyword_matches_def list.set_intros(1))
  with no_period_no_span[OF h, of "''ethics''" demo_text "[]" "[]" demo_text] h demo_eval(1)
  show ?thesis by simp
qed

text \<open>
  The result on the catalog of the module in closed form: for each category, in the order
  of the catalog, the candidates of the category without repetition, in the order of
  their first appearance.
\<close>

lemma extract_closed_form:
  "extract_esg_sections ESG_KEYWORDS get_text html_content company_name
     = Inr (map (\<lambda>(category, keywords).
                   (category,
                    dedup_into [] (category_candidates (collapse_ws (get_text html_content)) keywords)))
                ESG_KEYWORDS)"
  unfolding extract_esg_sections_def Let_def ESG_KEYWORDS_def
  by (subst extract_three) simp

text \<open>
  C10. When no keyword holds a period, as in \<open>ESG_KEYWORDS\<close>, every span of the result
  ends in a period and has no other period.
\<close>

theorem spans_end_in_one_period:
  assumes "extract_esg_sections keywords get_text html_content company_name = Inr res"
    and "\<forall>(c, kws)\<in>set keywords. \<forall>k\<in>set kws. CHR ''.'' \<notin> set k"
    and "map_of res category = Some spans" and "sp \<in> set spans"
  shows "sp \<noteq> [] \<and> last sp = CHR ''.'' \<and> CHR ''.'' \<notin> set (butlast sp)"
proof -
  let ?t = "collapse_ws (get_text html_content)"
  let ?I = "\<lambda>c l. \<forall>s\<in>set l. \<exists>x. s = x @ ''.'' \<and> CHR ''.'' \<notin> set x"
  from assms(1) have run: "add_categories ?t empty_results keywords = Inr res"
    by (simp add: extract_esg_sections_def)
  have "?I category spans"
  proof (rule add_categories_inv[OF run _ _ assms(3), of ?I])
    fix c old assume "map_of empty_results c = Some old"
    then show "?I c old" by (auto dest: empty_results_init)
  next
    fix c kws old assume c: "(c, kws) \<in> set keywords" and old: "?I c old"
    show "?I c (dedup_into old (category_candidates ?t kws))"
    proof
      fix s assume "s \<in> set (dedup_into old (category_candidates ?t kws))"
      then consider "s \<in> set old" | "s \<in> set (category_candidates ?t kws)"
        by (auto simp: set_dedup_into)
      then show "\<exists>x. s = x @ ''.'' \<and> CHR ''.'' \<notin> set x"
      proof cases
        case 1
        with old show ?thesis by blast
      next
        case 2
        then obtain k m where k: "k \<in> set kws" and m: "m \<in> set (keyword_matches ?t k)"
          and s: "s = strip m" unfolding candidates_iff by blast
        from c k assms(2) have np: "CHR ''.'' \<notin> set k" by blast
        from keyword_match_shape[OF m] obtain p rest where "sentence_match k p m rest" by blast
        from sentence_match_one_period[OF this np] s show ?thesis by simp
      qed
    qed
  qed
  with assms(4) obtain x where "sp = x @ ''.''" "CHR ''.'' \<notin> set x" by blast
  then show ?thesis by simp
qed

lemma catalog_no_period: "\<forall>(c, kws)\<in>set ESG_KEYWORDS. \<forall>k\<in>set kws. CHR ''.'' \<notin> set k"
  by (simp add: ESG_KEYWORDS_def)

theorem spans_end_in_one_period_witness:
  "\<exists>res spans. extract_esg_sections ESG_KEYWORDS (\<lambda>x. x) demo_text ''Apple'' = Inr res \<and>
     map_of res ''Governance'' = Some spans \<and> demo_text \<in> set spans \<and>
     demo_text \<noteq> [] \<and> last demo_text = CHR ''.'' \<and> CHR ''.'' \<notin> set (butlast demo_text)"
proof -
  from demo_run obtain res spans where
    r: "extract_esg_sections ESG_KEYWORDS (\<lambda>x. x) demo_text ''Apple'' = Inr res"
       "map_of res ''Governance'' = Some spans" "demo_text \<in> set spans" by blast
  from spans_end_in_one_period[OF r(1) catalog_no_period r(2,3)] r
  show ?thesis by blast
qed

section \<open>The claim about the metrics aggregator\<close>

subsection \<open>The double that true division returns\<close>

declare bit_length.simps [simp del]

lemma bit_length_bounds:
  "0 < n \<Longrightarrow> 2 ^ (bit_length n - 1) \<le> n \<and> n < 2 ^ bit_length n"
proof (induction n rule: bit_length.induct)
  case (1 n)
  show ?case
  proof (cases "n div 2 = 0")
    case True
    with "1.prems" have "n = 1" by (simp add: div_eq_0_iff)
    then show ?thesis by (simp add: bit_length.simps[of "Suc 0"] bit_length.simps[of 0])
  next
    case False
    with "1.IH" "1.prems" have ih: "2 ^ (bit_length (n div 2) - 1) \<le> n div 2"
      "n div 2 < 2 ^ bit_length (n div 2)" by simp_all
    have pos: "0 < bit_length (n div 2)" using False by (simp add: bit_length.simps[of "n div 2"])
    have bl: "bit_length n = Suc (bit_length (n div 2))"
      using "1.prems" by (simp add: bit_length.simps[of n])
    have "2 ^ (bit_length n - 1) = 2 * 2 ^ (bit_length (n div 2) - 1)"
      using bl pos by (cases "bit_length (n div 2)") simp_all
    also have "\<dots> \<le> 2 * (n div 2)" using ih(1) by simp
    also have "\<dots> \<le> n" by simp
    finally have lo: "2 ^ (bit_length n - 1) \<le> n" .
    have "n < 2 * (n div 2) + 2" by presburger
    also have "\<dots> \<le> 2 * 2 ^ bit_length (n div 2)" using ih(2) by simp
    finally have "n < 2 ^ bit_length n" using bl by simp
    with lo show ?thesis by simp
  qed
qed

lemma round_half_even_close: "\<bar>of_int (round_half_even x) - x\<bar> \<le> 1 / 2"
proof -
  have "of_int \<lfloor>x\<rfloor> \<le> x" "x < of_int \<lfloor>x\<rfloor> + 1" by linarith+
  then show ?thesis
    by (auto simp: round_half_even_def Let_def abs_le_iff)
qed

lemma round_half_even_of_int: "round_half_even (of_int z) = z"
  by (simp add: round_half_even_def)

lemma bit_length_rat:
  assumes "0 < n"
  shows "(2::rat) ^ (bit_length n - 1) \<le> of_nat n" and "(of_nat n :: rat) < 2 ^ bit_length n"
    and "0 < bit_length n"
proof -
  from bit_length_bounds[OF assms] have b: "2 ^ (bit_length n - 1) \<le> n" "n < 2 ^ bit_length n"
    by simp_all
  from b(1) have "(of_nat (2 ^ (bit_length n - 1)) :: rat) \<le> of_nat n"
    by (simp only: of_nat_le_iff)
  then show "(2::rat) ^ (bit_length n - 1) \<le> of_nat n" by simp
  from b(2) have "(of_nat n :: rat) < of_nat (2 ^ bit_length n)"
    by (simp only: of_nat_less_iff)
  then show "(of_nat n :: rat) < 2 ^ bit_length n" by simp
  show "0 < bit_length n" using assms by (simp add: bit_length.simps[of n])
qed

lemma pow2_diff_nat: "power_int (2::rat) (int m - int n) = 2 ^ m / 2 ^ n"
proof -
  have "power_int (2::rat) (int m - int n) = power_int 2 (int m) / power_int 2 (int n)"
    by (rule power_int_diff) simp
  then show ?thesis by simp
qed

lemma exponent_bounds:
  assumes "0 < a" "0 < b"
  shows "power_int 2 (double_exponent a b) \<le> (of_nat a / of_nat b :: rat)"
    and "(of_nat a / of_nat b :: rat) < power_int 2 (double_exponent a b + 1)"
proof -
  let ?la = "bit_length a" and ?lb = "bit_length b"
  let ?q = "of_nat a / of_nat b :: rat"
  let ?k = "int ?la - int ?lb"
  note ar = bit_length_rat[OF assms(1)]
  note br = bit_length_rat[OF assms(2)]
  have bq: "(0::rat) < of_nat b" using assms(2) by simp
  have aq: "(0::rat) < of_nat a" using assms(1) by simp
  have p1: "(0::rat) < 2 ^ (?lb - 1)" by simp
  have p2: "(0::rat) < 2 ^ ?lb" by simp
  have up: "?q < power_int 2 (?k + 1)"
  proof -
    have "?q < 2 ^ ?la / of_nat b" using ar(2) bq by (rule divide_strict_right_mono)
    also have "\<dots> \<le> 2 ^ ?la / 2 ^ (?lb - 1)"
      by (rule divide_left_mono[OF br(1)]) (use assms(2) in simp_all)
    also have "\<dots> = power_int 2 (int ?la - int (?lb - 1))"
      by (simp only: pow2_diff_nat)
    also have "int ?la - int (?lb - 1) = ?k + 1" using br(3) by simp
    finally show ?thesis .
  qed
  have low: "power_int 2 (?k - 1) < ?q"
  proof -
    have "?k - 1 = int (?la - 1) - int ?lb" using ar(3) by simp
    then have "power_int (2::rat) (?k - 1) = 2 ^ (?la - 1) / 2 ^ ?lb"
      by (simp only: pow2_diff_nat)
    also have "\<dots> \<le> of_nat a / 2 ^ ?lb" using ar(1) p2 by (simp add: divide_right_mono)
    also have "\<dots> < of_nat a / of_nat b"
      by (rule divide_strict_left_mono[OF br(2) aq]) (use assms(2) in simp)
    finally show ?thesis .
  qed
  show "power_int 2 (double_exponent a b) \<le> ?q"
  proof (cases "power_int 2 ?k \<le> ?q")
    case True
    then show ?thesis by (simp add: double_exponent_def Let_def)
  next
    case False
    then have "double_exponent a b = ?k - 1" by (simp add: double_exponent_def Let_def)
    with low show ?thesis by simp
  qed
  show "?q < power_int 2 (double_exponent a b + 1)"
  proof (cases "power_int 2 ?k \<le> ?q")
    case True
    then have "double_exponent a b = ?k" by (simp add: double_exponent_def Let_def)
    with up show ?thesis by simp
  next
    case False
    then have "double_exponent a b = ?k - 1" by (simp add: double_exponent_def Let_def)
    with False show ?thesis by simp
  qed
qed

lemma pow2_inverse: "power_int (2::rat) (52 - e) * power_int 2 (e - 52) = 1"
proof -
  have "power_int (2::rat) ((52 - e) + (e - 52)) = power_int 2 (52 - e) * power_int 2 (e - 52)"
    by (rule power_int_add) simp
  then show ?thesis by simp
qed

lemma pow2_shift: "power_int (2::rat) (e - 52) / 2 = power_int 2 e / 2 ^ 53"
proof -
  have "power_int (2::rat) (e - int 52) = power_int 2 e / power_int 2 (int 52)"
    by (rule power_int_diff) simp
  then have "power_int (2::rat) (e - 52) = power_int 2 e / 2 ^ 52" by simp
  then show ?thesis by simp
qed

lemma truediv_error:
  assumes "0 < a" "0 < b"
  shows "\<bar>py_truediv a b - of_nat a / of_nat b\<bar> \<le> (of_nat a / of_nat b) / 2 ^ 53"
proof -
  let ?q = "of_nat a / of_nat b :: rat"
  let ?e = "double_exponent a b"
  let ?s = "?q * power_int 2 (52 - ?e)"
  let ?m = "round_half_even ?s"
  have py: "py_truediv a b = of_int ?m * power_int 2 (?e - 52)"
    using assms(1) by (simp add: py_truediv_def Let_def)
  have "?s * power_int 2 (?e - 52) = ?q * (power_int 2 (52 - ?e) * power_int 2 (?e - 52))"
    by (simp only: mult.assoc)
  then have unscale: "?s * power_int 2 (?e - 52) = ?q" by (simp only: pow2_inverse mult_1_right)
  have "py_truediv a b - ?q = (of_int ?m - ?s) * power_int 2 (?e - 52)"
    unfolding py by (simp only: left_diff_distrib unscale)
  then have "\<bar>py_truediv a b - ?q\<bar> = \<bar>of_int ?m - ?s\<bar> * power_int 2 (?e - 52)"
    by (simp add: abs_mult)
  also have "\<dots> \<le> 1 / 2 * power_int 2 (?e - 52)"
    by (rule mult_right_mono[OF round_half_even_close]) simp
  also have "\<dots> = power_int 2 ?e / 2 ^ 53" using pow2_shift[of ?e] by simp
  also have "\<dots> \<le> ?q / 2 ^ 53"
    by (rule divide_right_mono[OF exponent_bounds(1)[OF assms]]) simp
  finally show ?thesis .
qed

lemma truediv_exact:
  assumes "0 < b" "b dvd a" "a div b < 2 ^ 53"
  shows "py_truediv a b = of_nat (a div b)"
proof (cases "a = 0")
  case True
  then show ?thesis by (simp add: py_truediv_def)
next
  case False
  then have a: "0 < a" by simp
  let ?z = "a div b"
  let ?e = "double_exponent a b"
  have q: "(of_nat a / of_nat b :: rat) = of_nat ?z"
  proof -
    from assms(2) have "a = ?z * b" by simp
    then have "(of_nat a :: rat) = of_nat ?z * of_nat b" by (metis of_nat_mult)
    then show ?thesis using assms(1) by simp
  qed
  have "(of_nat ?z :: rat) < of_nat (2 ^ 53)" using assms(3) by (simp only: of_nat_less_iff)
  then have z53: "(of_nat ?z :: rat) < power_int 2 53" by simp
  have e: "?e \<le> 52"
  proof (rule ccontr)
    assume "\<not> ?e \<le> 52"
    then have "53 \<le> ?e" by simp
    then have "power_int (2::rat) 53 \<le> power_int 2 ?e" by (rule power_int_increasing) simp
    also have "\<dots> \<le> of_nat ?z" using exponent_bounds(1)[OF a assms(1)] q by simp
    finally show False using z53 by simp
  qed
  define n where "n = nat (52 - ?e)"
  have p: "power_int (2::rat) (52 - ?e) = 2 ^ n"
    using e unfolding n_def by (simp add: power_int_def)
  have "of_nat ?z * (2::rat) ^ n = of_int (int ?z * 2 ^ n)" by simp
  then have r: "round_half_even (of_nat ?z * 2 ^ n) = int ?z * 2 ^ n"
    by (simp only: round_half_even_of_int)
  have "py_truediv a b = of_int (round_half_even (of_nat ?z * power_int 2 (52 - ?e)))
      * power_int 2 (?e - 52)"
    using False q by (simp add: py_truediv_def Let_def)
  also have "\<dots> = of_int (int ?z * 2 ^ n) * power_int 2 (?e - 52)" by (simp only: p r)
  also have "\<dots> = of_nat ?z * (power_int 2 (52 - ?e) * power_int 2 (?e - 52))"
    by (simp add: p)
  also have "\<dots> = of_nat ?z" by (simp only: pow2_inverse mult_1_right)
  finally show ?thesis .
qed

lemma truediv_10_3: "py_truediv 10 3 = 7505999378950827 / 2251799813685248"
  by code_simp

subsection \<open>The metrics\<close>

text \<open>
  C6, as amended. The metrics of a category are a function of its span list alone (the
  empty list for a category the data does not hold): the count is the length of the
  list; on the empty list the average is 0 and the sample the sentinel; on a list with a
  span the sample is the first 200 characters of the first span followed by three
  periods, and the average is the double that true division of the sum of the lengths by
  their number returns: the arithmetic mean rounded to a double, within the fraction
  \<open>1 / 2 ^ 53\<close> of the mean, and the mean itself when the mean is a whole number below
  \<open>2 ^ 53\<close>.
\<close>

theorem metrics_of_span_list:
  assumes "category \<in> set [''Environmental'', ''Social'', ''Governance'']"
    and "items = (case map_of esg_data category of None \<Rightarrow> [] | Some l \<Rightarrow> l)"
    and "total_length = sum_list (map length items)"
  shows "\<exists>m. map_of (analyze_esg_disclosure esg_data) category = Some m \<and>
           m = span_metrics items \<and>
           disclosure_count m = length items \<and>
           (items = [] \<longrightarrow> avg_length m = 0 \<and> sample m = ''No disclosure found'') \<and>
           (items \<noteq> [] \<longrightarrow>
              avg_length m = py_truediv total_length (length items) \<and>
              \<bar>avg_length m - of_nat total_length / of_nat (length items)\<bar>
                \<le> (of_nat total_length / of_nat (length items)) / 2 ^ 53 \<and>
              (length items dvd total_length \<longrightarrow> total_length div length items < 2 ^ 53 \<longrightarrow>
                 avg_length m = of_nat total_length / of_nat (length items)) \<and>
              sample m = take 200 (hd items) @ ''...'')"
proof -
  from assms have "map_of (analyze_esg_disclosure esg_data) category = Some (span_metrics items)"
    by (auto simp: analyze_esg_disclosure_def)
  moreover have "disclosure_count (span_metrics items) = length items"
    by (simp add: span_metrics_def)
  moreover have "items = [] \<longrightarrow> avg_length (span_metrics items) = 0 \<and>
      sample (span_metrics items) = ''No disclosure found''"
    by (simp add: span_metrics_def)
  moreover have "items \<noteq> [] \<longrightarrow>
      avg_length (span_metrics items) = py_truediv total_length (length items) \<and>
      \<bar>avg_length (span_metrics items) - of_nat total_length / of_nat (length items)\<bar>
        \<le> (of_nat total_length / of_nat (length items)) / 2 ^ 53 \<and>
      (length items dvd total_length \<longrightarrow> total_length div length items < 2 ^ 53 \<longrightarrow>
         avg_length (span_metrics items) = of_nat total_length / of_nat (length items)) \<and>
      sample (span_metrics items) = take 200 (hd items) @ ''...''"
  proof
    assume ne: "items \<noteq> []"
    then have n: "0 < length items" by simp
    have avg: "avg_length (span_metrics items) = py_truediv total_length (length items)"
      using ne assms(3) by (simp add: span_metrics_def)
    have err: "\<bar>py_truediv total_length (length items) - of_nat total_length / of_nat (length items)\<bar>
        \<le> (of_nat total_length / of_nat (length items)) / 2 ^ 53"
    proof (cases "total_length = 0")
      case True
      then show ?thesis by (simp add: py_truediv_def)
    next
      case False
      then have "0 < total_length" by simp
      then show ?thesis using n by (rule truediv_error)
    qed
    have exact: "length items dvd total_length \<longrightarrow> total_length div length items < 2 ^ 53 \<longrightarrow>
         py_truediv total_length (length items) = of_nat total_length / of_nat (length items)"
    proof (intro impI)
      assume d: "length items dvd total_length" and b: "total_length div length items < 2 ^ 53"
      from truediv_exact[OF n d b]
      have "py_truediv total_length (length items) = of_nat (total_length div length items)" .
      also have "\<dots> = of_nat total_length / of_nat (length items)"
      proof -
        from d have "total_length = length items * (total_length div length items)" by simp
        then have "(of_nat total_length :: rat)
            = of_nat (length items) * of_nat (total_length div length items)"
          by (metis of_nat_mult)
        then show ?thesis using n by simp
      qed
      finally show "py_truediv total_length (length items) = of_nat total_length / of_nat (length items)" .
    qed
    have smp: "sample (span_metrics items) = take 200 (hd items) @ ''...''"
      using ne by (cases items) (simp_all add: span_metrics_def)
    from avg err exact smp
    show "avg_length (span_metrics items) = py_truediv total_length (length items) \<and>
      \<bar>avg_length (span_metrics items) - of_nat total_length / of_nat (length items)\<bar>
        \<le> (of_nat total_length / of_nat (length items)) / 2 ^ 53 \<and>
      (length items dvd total_length \<longrightarrow> total_length div length items < 2 ^ 53 \<longrightarrow>
         avg_length (span_metrics items) = of_nat total_length / of_nat (length items)) \<and>
      sample (span_metrics items) = take 200 (hd items) @ ''...''"
      by simp
  qed
  ultimately show ?thesis by blast
qed

lemma demo_metrics_eval:
  "map_of (analyze_esg_disclosure demo_esg_data) ''Environmental''
     = Some \<lparr> disclosure_count = 0, avg_length = 0, sample = ''No disclosure found'' \<rparr>"
  "map_of (analyze_esg_disclosure demo_esg_data) ''Social''
     = Some \<lparr> disclosure_count = 3, avg_length = 7505999378950827 / 2251799813685248,
              sample = ''abcd...'' \<rparr>"
  "map_of (analyze_esg_disclosure demo_esg_data) ''Governance''
     = Some \<lparr> disclosure_count = 2, avg_length = 3, sample = ''abcd...'' \<rparr>"
  by code_simp+

theorem metrics_of_span_list_witness:
  "map_of (analyze_esg_disclosure demo_esg_data) ''Environmental''
     = Some \<lparr> disclosure_count = 0, avg_length = 0, sample = ''No disclosure found'' \<rparr> \<and>
   map_of (analyze_esg_disclosure demo_esg_data) ''Social''
     = Some \<lparr> disclosure_count = 3, avg_length = 7505999378950827 / 2251799813685248,
              sample = ''abcd...'' \<rparr> \<and>
   \<bar>7505999378950827 / 2251799813685248 - 10 / 3\<bar> \<le> (10 / 3 :: rat) / 2 ^ 53 \<and>
   map_of (analyze_esg_disclosure demo_esg_data) ''Governance''
     = Some \<lparr> disclosure_count = 2, avg_length = 3, sample = ''abcd...'' \<rparr>"
proof -
  have ce: "''Environmental'' \<in> set [''Environmental'', ''Social'', ''Governance'']"
    and cs: "''Social'' \<in> set [''Environmental'', ''Social'', ''Governance'']"
    and cg: "''Governance'' \<in> set [''Environmental'', ''Social'', ''Governance'']"
    by simp_all
  have e: "[] = (case map_of demo_esg_data ''Environmental'' of None \<Rightarrow> [] | Some l \<Rightarrow> l)"
    and s: "[''abcd'', ''abc'', ''abc'']
              = (case map_of demo_esg_data ''Social'' of None \<Rightarrow> [] | Some l \<Rightarrow> l)"
    and g: "[''abcd'', ''ab'']
              = (case map_of demo_esg_data ''Governance'' of None \<Rightarrow> [] | Some l \<Rightarrow> l)"
    by (simp_all add: demo_esg_data_def)
  have te: "(0::nat) = sum_list (map length ([] :: string list))"
    and ts: "(10::nat) = sum_list (map length [''abcd'', ''abc'', ''abc''])"
    and tg: "(6::nat) = sum_list (map length [''abcd'', ''ab''])"
    by simp_all
  have close: "\<bar>7505999378950827 / 2251799813685248 - 10 / 3\<bar> \<le> (10 / 3 :: rat) / 2 ^ 53"
    by simp
  from metrics_of_span_list[OF ce e te] metrics_of_span_list[OF cs s ts]
    metrics_of_span_list[OF cg g tg] demo_metrics_eval close
  show ?thesis by blast
qed

text \<open>
  C6 as stated fails: for three spans of the lengths 4, 3 and 3 the average is the double
  nearest to \<open>10 / 3\<close>, which is not \<open>10 / 3\<close>.
\<close>

theorem average_is_rounded:
  "map_of (analyze_esg_disclosure [(''Social'', [''abcd'', ''abc'', ''abc''])]) ''Social''
     = Some \<lparr> disclosure_count = 3, avg_length = 7505999378950827 / 2251799813685248,
              sample = ''abcd...'' \<rparr> \<and>
   (7505999378950827 / 2251799813685248 :: rat)
     \<noteq> of_nat (sum_list (map length [''abcd'', ''abc'', ''abc'']))
         / of_nat (length [''abcd'', ''abc'', ''abc''])"
  by code_simp

section \<open>The claims about the fetcher and the driver\<close>

lemma collect_filings_ok:
  assumes "\<forall>j<length forms. \<exists>s d p. py_index accessions (i + j) = Inr (JStr s) \<and>
             py_index dates (i + j) = Inr d \<and> py_index docs (i + j) = Inr p"
    and "int (length results) \<le> max count 0"
    and "\<forall>f\<in>set results. filing_form f = filing_type \<and> filing_cik f = cik"
  shows "\<exists>fs. collect_filings cik filing_type count accessions dates docs i forms results = Inr fs \<and>
           int (length fs) \<le> max count 0 \<and>
           (\<forall>f\<in>set fs. filing_form f = filing_type \<and> filing_cik f = cik)"
  using assms
proof (induction forms arbitrary: i results)
  case Nil
  then show ?case by simp
next
  case (Cons form forms)
  from Cons.prems(1) obtain s d p where here: "py_index accessions i = Inr (JStr s)"
    "py_index dates i = Inr d" "py_index docs i = Inr p" by fastforce
  have later: "\<forall>j<length forms. \<exists>s d p. py_index accessions (Suc i + j) = Inr (JStr s) \<and>
             py_index dates (Suc i + j) = Inr d \<and> py_index docs (Suc i + j) = Inr p"
  proof (intro allI impI)
    fix j assume "j < length forms"
    then have "Suc j < length (form # forms)" by simp
    with Cons.prems(1) have "\<exists>s d p. py_index accessions (i + Suc j) = Inr (JStr s) \<and>
             py_index dates (i + Suc j) = Inr d \<and> py_index docs (i + Suc j) = Inr p" by blast
    then show "\<exists>s d p. py_index accessions (Suc i + j) = Inr (JStr s) \<and>
             py_index dates (Suc i + j) = Inr d \<and> py_index docs (Suc i + j) = Inr p" by simp
  qed
  show ?case
  proof (cases "form = JStr filing_type \<and> int (length results) < count")
    case True
    let ?f = "\<lparr> filing_form = filing_type, filing_accession = filter (\<lambda>c. c \<noteq> CHR ''-'') s,
                 filing_date = d, filing_document = p, filing_cik = cik \<rparr>"
    have l: "int (length (results @ [?f])) \<le> max count 0" using True by simp
    have a: "\<forall>f\<in>set (results @ [?f]). filing_form f = filing_type \<and> filing_cik f = cik"
      using Cons.prems(3) by simp
    from Cons.IH[OF later l a] True here show ?thesis by simp
  next
    case False
    from Cons.IH[OF later Cons.prems(2,3)] False show ?thesis by auto
  qed
qed

text \<open>
  A sufficient condition for a normal return: the answer has a non-success status, or it
  holds the four parallel sequences as arrays, the accession numbers being strings and no
  array shorter than the array of forms (in particular when all four are missing). Then
  \<open>get_company_filings\<close> returns at most \<open>count\<close> records of the form asked for, and
  none for a non-success status.
\<close>

lemma filings_of_parallel_sequences:
  assumes "requests_get (submissions_url cik) = Inr response"
    and "status_code response = 200 \<longrightarrow>
           json_body response = Some data \<and>
           dict_get data ''filings'' (JObj []) = Inr fj \<and>
           dict_get fj ''recent'' (JObj []) = Inr filings \<and>
           dict_get filings ''form'' (JArr []) = Inr (JArr forms) \<and>
           dict_get filings ''accessionNumber'' (JArr []) = Inr (JArr (map JStr accessions)) \<and>
           dict_get filings ''filingDate'' (JArr []) = Inr (JArr dates) \<and>
           dict_get filings ''primaryDocument'' (JArr []) = Inr (JArr docs) \<and>
           length forms \<le> length accessions \<and> length forms \<le> length dates \<and>
           length forms \<le> length docs"
  shows "\<exists>fs. get_company_filings requests_get cik filing_type count = Inr fs \<and>
           int (length fs) \<le> max count 0 \<and>
           (\<forall>f\<in>set fs. filing_form f = filing_type \<and> filing_cik f = cik) \<and>
           (status_code response \<noteq> 200 \<longrightarrow> fs = [])"
proof (cases "status_code response = 200")
  case False
  with assms(1) show ?thesis by (simp add: get_company_filings_def)
next
  case True
  with assms(2) have s: "json_body response = Some data"
    "dict_get data ''filings'' (JObj []) = Inr fj"
    "dict_get fj ''recent'' (JObj []) = Inr filings"
    "dict_get filings ''form'' (JArr []) = Inr (JArr forms)"
    "dict_get filings ''accessionNumber'' (JArr []) = Inr (JArr (map JStr accessions))"
    "dict_get filings ''filingDate'' (JArr []) = Inr (JArr dates)"
    "dict_get filings ''primaryDocument'' (JArr []) = Inr (JArr docs)"
    and len: "length forms \<le> length accessions" "length forms \<le> length dates"
      "length forms \<le> length docs" by simp_all
  have idx: "\<forall>j<length forms. \<exists>s d p. py_index (JArr (map JStr accessions)) (0 + j) = Inr (JStr s) \<and>
             py_index (JArr dates) (0 + j) = Inr d \<and> py_index (JArr docs) (0 + j) = Inr p"
    using len by simp
  from collect_filings_ok[OF idx, of "[]" count filing_type cik]
  obtain fs where "collect_filings cik filing_type count (JArr (map JStr accessions)) (JArr dates)
      (JArr docs) 0 forms [] = Inr fs" "int (length fs) \<le> max count 0"
    "\<forall>f\<in>set fs. filing_form f = filing_type \<and> filing_cik f = cik" by auto
  with assms(1) True s show ?thesis by (simp add: get_company_filings_def)
qed

lemma filings_of_parallel_sequences_demo:
  "get_company_filings (answer_with demo_metadata) ''0000320193'' ''10-K'' 1
     = Inr [\<lparr> filing_form = ''10-K'', filing_accession = ''000032019323000106'',
               filing_date = JStr ''2023-11-03'', filing_document = JStr ''aapl-20230930.htm'',
               filing_cik = ''0000320193'' \<rparr>]"
proof -
  let ?recent = "JObj
       [(''form'', JArr [JStr ''8-K'', JStr ''10-K'']),
        (''accessionNumber'', JArr [JStr ''0000320193-23-000110'', JStr ''0000320193-23-000106'']),
        (''filingDate'', JArr [JStr ''2023-11-30'', JStr ''2023-11-03'']),
        (''primaryDocument'', JArr [JStr ''a8k.htm'', JStr ''aapl-20230930.htm''])]"
  let ?r = "\<lparr> status_code = 200, json_body = Some demo_metadata, text_body = [] \<rparr>"
  have 1: "answer_with demo_metadata (submissions_url ''0000320193'') = Inr ?r"
    by (simp add: answer_with_def)
  have 2: "status_code ?r = 200 \<longrightarrow>
           json_body ?r = Some demo_metadata \<and>
           dict_get demo_metadata ''filings'' (JObj []) = Inr (JObj [(''recent'', ?recent)]) \<and>
           dict_get (JObj [(''recent'', ?recent)]) ''recent'' (JObj []) = Inr ?recent \<and>
           dict_get ?recent ''form'' (JArr []) = Inr (JArr [JStr ''8-K'', JStr ''10-K'']) \<and>
           dict_get ?recent ''accessionNumber'' (JArr [])
             = Inr (JArr (map JStr [''0000320193-23-000110'', ''0000320193-23-000106''])) \<and>
           dict_get ?recent ''filingDate'' (JArr [])
             = Inr (JArr [JStr ''2023-11-30'', JStr ''2023-11-03'']) \<and>
           dict_get ?recent ''primaryDocument'' (JArr [])
             = Inr (JArr [JStr ''a8k.htm'', JStr ''aapl-20230930.htm'']) \<and>
           length [JStr ''8-K'', JStr ''10-K'']
             \<le> length [''0000320193-23-000110'', ''0000320193-23-000106''] \<and>
           length [JStr ''8-K'', JStr ''10-K''] \<le> length [JStr ''2023-11-30'', JStr ''2023-11-03''] \<and>
           length [JStr ''8-K'', JStr ''10-K''] \<le> length [JStr ''a8k.htm'', JStr ''aapl-20230930.htm'']"
    by (simp add: demo_metadata_def)
  from filings_of_parallel_sequences[where requests_get = "answer_with demo_metadata"
      and cik = "''0000320193''" and response = ?r and data = demo_metadata
      and forms = "[JStr ''8-K'', JStr ''10-K'']"
      and filing_type = "''10-K''" and count = 1, OF 1 2]
  obtain fs where "get_company_filings (answer_with demo_metadata) ''0000320193'' ''10-K'' 1 = Inr fs"
    by blast
  then show ?thesis
    by (simp add: get_company_filings_def answer_with_def demo_metadata_def submissions_url_def)
qed

text \<open>
  C3. Malformed filing metadata, such as parallel sequences that are missing or of
  different lengths, should give a normal return with a possibly empty sequence. The
  code does so when every sequence is missing: each \<open>.get\<close> supplies its default and the
  result is empty. It fails to when the form sequence holds the form asked for and the
  accession numbers are missing: line 67 supplies the default \<open>[]\<close>, line 75 indexes it,
  and \<open>IndexError\<close> leaves the function.
\<close>

theorem mismatched_sequences_raise:
  "get_company_filings (answer_with short_metadata) ''0000320193'' ''10-K'' 1 = Inl IndexError \<and>
   get_company_filings (answer_with (JObj [])) ''0000320193'' ''10-K'' 1 = Inr []"
  by (simp add: get_company_filings_def answer_with_def short_metadata_def)

lemma process_companies_append:
  "process_companies requests_get get_text str_of (pre @ companies) all_results
   = (case process_companies requests_get get_text str_of pre all_results of
        Inl e \<Rightarrow> Inl e
      | Inr acc \<Rightarrow> process_companies requests_get get_text str_of companies acc)"
proof (induction pre arbitrary: all_results)
  case Nil
  show ?case by simp
next
  case (Cons entry pre)
  obtain company cik where "entry = (company, cik)" by (cases entry)
  with Cons.IH show ?case
    by (simp split: sum.splits list.splits option.splits)
qed

lemma company_fetch_raises:
  "requests_get (submissions_url cik) = Inl e \<Longrightarrow>
   process_companies requests_get get_text str_of ((company, cik) # companies) acc = Inl e"
  by (simp add: get_company_filings_def)

lemma company_status_skips:
  "requests_get (submissions_url cik) = Inr response \<Longrightarrow> status_code response \<noteq> 200 \<Longrightarrow>
   process_companies requests_get get_text str_of ((company, cik) # companies) acc
   = process_companies requests_get get_text str_of companies acc"
  by (simp add: get_company_filings_def)

lemma document_fetch_raises:
  "get_company_filings requests_get cik ''10-K'' 1 = Inr (filing # fs) \<Longrightarrow>
   requests_get (document_url str_of cik (filing_accession filing) (filing_document filing)) = Inl e \<Longrightarrow>
   process_companies requests_get get_text str_of ((company, cik) # companies) acc = Inl e"
  by (simp add: get_filing_content_def)

lemma document_status_skips:
  "get_company_filings requests_get cik ''10-K'' 1 = Inr (filing # fs) \<Longrightarrow>
   requests_get (document_url str_of cik (filing_accession filing) (filing_document filing))
     = Inr response \<Longrightarrow> status_code response \<noteq> 200 \<Longrightarrow>
   process_companies requests_get get_text str_of ((company, cik) # companies) acc
   = process_companies requests_get get_text str_of companies acc"
  by (simp add: get_filing_content_def)

text \<open>
  C2, as amended. After the companies before it have been processed, a company whose
  metadata or document request is answered by a non-success status is skipped, and the
  run goes on with the later companies; a request that raises is not caught: the
  exception is the outcome of the whole loop, whatever companies come later.
\<close>

theorem driver_skips_on_status_and_stops_on_exception:
  assumes "process_companies requests_get get_text str_of pre [] = Inr acc"
  shows
    "(requests_get (submissions_url cik) = Inl e \<longrightarrow>
        process_companies requests_get get_text str_of (pre @ (company, cik) # later) [] = Inl e) \<and>
     (requests_get (submissions_url cik) = Inr response \<longrightarrow> status_code response \<noteq> 200 \<longrightarrow>
        process_companies requests_get get_text str_of (pre @ (company, cik) # later) []
        = process_companies requests_get get_text str_of later acc) \<and>
     (get_company_filings requests_get cik ''10-K'' 1 = Inr (filing # fs) \<longrightarrow>
      requests_get (document_url str_of cik (filing_accession filing) (filing_document filing))
        = Inl e \<longrightarrow>
        process_companies requests_get get_text str_of (pre @ (company, cik) # later) [] = Inl e) \<and>
     (get_company_filings requests_get cik ''10-K'' 1 = Inr (filing # fs) \<longrightarrow>
      requests_get (document_url str_of cik (filing_accession filing) (filing_document filing))
        = Inr response \<longrightarrow> status_code response \<noteq> 200 \<longrightarrow>
        process_companies requests_get get_text str_of (pre @ (company, cik) # later) []
        = process_companies requests_get get_text str_of later acc)"
  using assms
  by (simp add: process_companies_append company_fetch_raises company_status_skips
      document_fetch_raises document_status_skips del: process_companies.simps)

theorem driver_skips_on_status_and_stops_on_exception_witness:
  "main apple_times_out (\<lambda>x. x) (\<lambda>j. []) = Inl RequestException \<and>
   main all_not_found (\<lambda>x. x) (\<lambda>j. []) = Inr [] \<and>
   process_companies all_not_found (\<lambda>x. x) (\<lambda>j. []) [(''Apple'', ''0000320193'')] [] = Inr [] \<and>
   process_companies apple_times_out (\<lambda>x. x) (\<lambda>j. [])
     ([(''Alphabet (Google)'', ''0001652044'')] @ (''Apple'', ''0000320193'') # [(''Tesla'', ''0001318605'')]) []
     = Inl RequestException \<and>
   process_companies all_not_found (\<lambda>x. x) (\<lambda>j. [])
     ([(''Apple'', ''0000320193'')] @ (''Alphabet (Google)'', ''0001652044'') # [(''Tesla'', ''0001318605'')]) []
     = process_companies all_not_found (\<lambda>x. x) (\<lambda>j. []) [(''Tesla'', ''0001318605'')] []"
proof -
  have g: "process_companies apple_times_out (\<lambda>x. x) (\<lambda>j. []) [(''Alphabet (Google)'', ''0001652044'')] []
      = Inr []"
    by (simp add: get_company_filings_def apple_times_out_def not_found_def submissions_url_def)
  have a: "process_companies all_not_found (\<lambda>x. x) (\<lambda>j. []) [(''Apple'', ''0000320193'')] [] = Inr []"
    by (simp add: get_company_filings_def all_not_found_def not_found_def)
  have r: "apple_times_out (submissions_url ''0000320193'') = Inl RequestException"
    by (simp add: apple_times_out_def)
  have s: "all_not_found (submissions_url ''0001652044'') = Inr not_found"
    "status_code not_found \<noteq> 200"
    by (simp_all add: all_not_found_def not_found_def)
  have m1: "main apple_times_out (\<lambda>x. x) (\<lambda>j. []) = Inl RequestException"
    by (simp add: main_def COMPANIES_def get_company_filings_def apple_times_out_def)
  have m2: "main all_not_found (\<lambda>x. x) (\<lambda>j. []) = Inr []"
    by (simp add: main_def COMPANIES_def get_company_filings_def all_not_found_def not_found_def)
  from driver_skips_on_status_and_stops_on_exception[OF g, of "''0000320193''" RequestException
      "''Apple''" "[(''Tesla'', ''0001318605'')]"]
    driver_skips_on_status_and_stops_on_exception[OF a, of "''0001652044''" _
      "''Alphabet (Google)''" "[(''Tesla'', ''0001318605'')]" not_found]
    r s a m1 m2
  show ?thesis by simp
qed

text \<open>C2 as stated fails: when the first request raises, \<open>main\<close> raises, the later
  companies are not processed and the artifact is not written.\<close>

theorem transport_exception_ends_run:
  "main apple_times_out (\<lambda>x. x) (\<lambda>j. []) = Inl RequestException"
  by (simp add: main_def COMPANIES_def get_company_filings_def apple_times_out_def)

end
